theory Spec2Isabelle
  imports Complex_Main "HOL-Library.Word"
begin

section \<open>JavaScript values\<close>

text \<open>
  The pixel transforms of \<^verbatim>\<open>src/transform\<close> work on \<^verbatim>\<open>ImageData\<close> objects whose
  \<^verbatim>\<open>data\<close> is a \<^verbatim>\<open>Uint8ClampedArray\<close>.  A read inside the array gives a number
  between 0 and 255, a read past its end gives \<^verbatim>\<open>undefined\<close>; a write past its end
  is ignored, and a write inside converts the value with the clamping conversion of the
  typed array (\<^verbatim>\<open>undefined\<close> and \<^verbatim>\<open>NaN\<close> become 0, ties round to even).

  JavaScript numbers are modelled as exact reals extended with \<^verbatim>\<open>NaN\<close> and the two
  infinities, which is where a division by zero lands.  The rounding of double
  arithmetic is not modelled.
\<close>

type_synonym byte = "8 word"

datatype jsnum = Fin real | NaN | PosInf | NegInf

text \<open>A JavaScript value that is a number or \<^verbatim>\<open>undefined\<close> (\<open>None\<close>).\<close>

type_synonym jsval = "jsnum option"

fun toNumber :: "jsval \<Rightarrow> jsnum" where
  "toNumber None = NaN"
| "toNumber (Some n) = n"

text \<open>The strict equality \<^verbatim>\<open>===\<close> on such values: \<^verbatim>\<open>NaN\<close> equals nothing.\<close>

definition strictEq :: "jsval \<Rightarrow> jsval \<Rightarrow> bool" where
  "strictEq a b = (a = b \<and> a \<noteq> Some NaN)"

definition roundHalfEven :: "real \<Rightarrow> int" where
  "roundHalfEven r =
     (let f = \<lfloor>r\<rfloor> in
      if r - of_int f < 1/2 then f
      else if 1/2 < r - of_int f then f + 1
      else if even f then f else f + 1)"

fun toUint8Clamp :: "jsnum \<Rightarrow> byte" where
  "toUint8Clamp NaN = 0"
| "toUint8Clamp PosInf = 255"
| "toUint8Clamp NegInf = 0"
| "toUint8Clamp (Fin r) =
     (if r \<le> 0 then 0 else if 255 \<le> r then 255 else of_int (roundHalfEven r))"

fun jsdiv :: "jsnum \<Rightarrow> jsnum \<Rightarrow> jsnum" where
  "jsdiv (Fin n) (Fin d) =
     (if d \<noteq> 0 then Fin (n / d)
      else if n = 0 then NaN
      else if 0 < n then PosInf else NegInf)"
| "jsdiv NaN _ = NaN"
| "jsdiv _ NaN = NaN"
| "jsdiv (Fin n) PosInf = Fin 0"
| "jsdiv (Fin n) NegInf = Fin 0"
| "jsdiv PosInf (Fin d) = (if 0 \<le> d then PosInf else NegInf)"
| "jsdiv NegInf (Fin d) = (if 0 \<le> d then NegInf else PosInf)"
| "jsdiv _ _ = NaN"

fun jsmul :: "jsnum \<Rightarrow> jsnum \<Rightarrow> jsnum" where
  "jsmul (Fin a) (Fin b) = Fin (a * b)"
| "jsmul NaN _ = NaN"
| "jsmul _ NaN = NaN"
| "jsmul PosInf (Fin b) = (if b = 0 then NaN else if 0 < b then PosInf else NegInf)"
| "jsmul NegInf (Fin b) = (if b = 0 then NaN else if 0 < b then NegInf else PosInf)"
| "jsmul (Fin a) PosInf = (if a = 0 then NaN else if 0 < a then PosInf else NegInf)"
| "jsmul (Fin a) NegInf = (if a = 0 then NaN else if 0 < a then NegInf else PosInf)"
| "jsmul PosInf PosInf = PosInf"
| "jsmul NegInf NegInf = PosInf"
| "jsmul PosInf NegInf = NegInf"
| "jsmul NegInf PosInf = NegInf"

fun jsadd :: "jsnum \<Rightarrow> jsnum \<Rightarrow> jsnum" where
  "jsadd (Fin a) (Fin b) = Fin (a + b)"
| "jsadd NaN _ = NaN"
| "jsadd _ NaN = NaN"
| "jsadd PosInf NegInf = NaN"
| "jsadd NegInf PosInf = NaN"
| "jsadd PosInf _ = PosInf"
| "jsadd NegInf _ = NegInf"
| "jsadd _ PosInf = PosInf"
| "jsadd _ NegInf = NegInf"

section \<open>Raster buffers (\<^verbatim>\<open>util.ts\<close>)\<close>

record ImageData =
  width :: nat
  height :: nat
  data :: "byte list"

type_synonym PixelData = "jsval \<times> jsval \<times> jsval \<times> jsval"

definition PIXEL_SIZE :: nat where
  "PIXEL_SIZE = 4"

text \<open>\<^verbatim>\<open>pixels[i]\<close> on the typed array.\<close>

definition readByte :: "byte list \<Rightarrow> nat \<Rightarrow> jsval" where
  "readByte pixels i =
     (if i < length pixels then Some (Fin (real (unat (pixels ! i)))) else None)"

text \<open>\<^verbatim>\<open>pixels[i] = v\<close> on the typed array; past the end nothing is stored.\<close>

definition writeByte :: "byte list \<Rightarrow> nat \<Rightarrow> jsval \<Rightarrow> byte list" where
  "writeByte pixels i v =
     (if i < length pixels then pixels[i := toUint8Clamp (toNumber v)] else pixels)"

definition setPixel ::
  "ImageData \<Rightarrow> nat \<Rightarrow> nat \<Rightarrow> jsval \<Rightarrow> jsval \<Rightarrow> jsval \<Rightarrow> jsval \<Rightarrow> ImageData" where
  "setPixel img x y r g b a =
     (let index = PIXEL_SIZE * (x + y * width img) in
      img\<lparr>data :=
        writeByte (writeByte (writeByte (writeByte (data img)
          index r) (index + 1) g) (index + 2) b) (index + 3) a\<rparr>)"

definition getPixel :: "byte list \<Rightarrow> nat \<Rightarrow> nat \<Rightarrow> nat \<Rightarrow> PixelData" where
  "getPixel pixels w x y =
     (let index = PIXEL_SIZE * (x + y * w) in
      (readByte pixels index,
       readByte pixels (index + 1),
       readByte pixels (index + 2),
       readByte pixels (index + 3)))"

definition hasColor :: "byte list \<Rightarrow> nat \<Rightarrow> nat \<Rightarrow> nat \<Rightarrow> PixelData \<Rightarrow> bool" where
  "hasColor pixels w x y color =
     (case (getPixel pixels w x y, color) of
        ((a0, a1, a2, a3), (c0, c1, c2, c3)) \<Rightarrow>
          strictEq a0 c0 \<and> strictEq a1 c1 \<and> strictEq a2 c2 \<and> strictEq a3 c3)"

section \<open>Directional edge extension (\<^verbatim>\<open>refill.ts\<close>, \<^verbatim>\<open>extendSides\<close>)\<close>

text \<open>
  The body of the two nested loops of \<^verbatim>\<open>extendSides\<close> at the anchor \<open>(x, y)\<close>.
  The control pixel is read with the width of the source as the row stride, as the
  source does.
\<close>

definition sidesBody :: "ImageData \<Rightarrow> nat \<Rightarrow> nat \<Rightarrow> ImageData \<Rightarrow> ImageData" where
  "sidesBody control x y source =
     (case getPixel (data control) (width source) x y of (cr, cg, cb, ca) \<Rightarrow>
        if strictEq ca (Some (Fin 0)) then source
        else
          (case getPixel (data source) (width source) x y of (r, g, b, a) \<Rightarrow>
             if strictEq cr (Some (Fin 255)) then
               fold (\<lambda>currentX s. setPixel s currentX y r g b a) [0..<x] source
             else if strictEq cg (Some (Fin 255)) then
               fold (\<lambda>currentY s. setPixel s x currentY r g b a) [0..<y] source
             else if strictEq cb (Some (Fin 255)) then
               fold (\<lambda>currentX s. setPixel s currentX y r g b a) [x + 1..<width source] source
             else
               fold (\<lambda>currentY s. setPixel s x currentY r g b a) [y + 1..<height source] source))"

definition extendSides :: "ImageData \<Rightarrow> ImageData \<Rightarrow> ImageData" where
  "extendSides source control =
     fold (\<lambda>x. fold (\<lambda>y. sidesBody control x y) [0..<height control])
       [0..<width control] source"


text \<open>
  Two notions used to state what one directive does.  \<open>channel c k\<close> is the
  \<open>k\<close>-th component of a pixel value, and \<open>written w h control x y\<close> is the set of
  pixel indices \<open>i + j * w\<close> that the directive decoded at the anchor \<open>(x, y)\<close>
  overwrites in a source of width \<open>w\<close> and height \<open>h\<close>.
\<close>

definition channel :: "PixelData \<Rightarrow> nat \<Rightarrow> jsval" where
  "channel c k = (case c of (r, g, b, a) \<Rightarrow>
      if k = 0 then r else if k = 1 then g else if k = 2 then b else a)"

definition written :: "nat \<Rightarrow> nat \<Rightarrow> ImageData \<Rightarrow> nat \<Rightarrow> nat \<Rightarrow> nat set" where
  "written w h control x y =
     (case getPixel (data control) w x y of (cr, cg, cb, ca) \<Rightarrow>
        if strictEq ca (Some (Fin 0)) then {}
        else if strictEq cr (Some (Fin 255)) then (\<lambda>t. t + y * w) ` {0..<x}
        else if strictEq cg (Some (Fin 255)) then (\<lambda>t. x + t * w) ` {0..<y}
        else if strictEq cb (Some (Fin 255)) then (\<lambda>t. t + y * w) ` {x + 1..<w}
        else (\<lambda>t. x + t * w) ` {y + 1..<h})"

text \<open>
  An anchor is a position whose pixel in the control image is not transparent.
  \<open>overwrites w h control x y i j\<close> says that the directive that the control pixel at
  \<open>(x, y)\<close> encodes writes the pixel \<open>(i, j)\<close> of a source of width \<open>w\<close> and height
  \<open>h\<close>.  The loops visit \<open>(i, j)\<close> before \<open>(x, y)\<close> when \<open>i < x\<close>, or \<open>i = x\<close> and
  \<open>j < y\<close>.  \<open>earlierAnchorsKept\<close> says that no directive of the control image writes
  the pixel of an anchor that the loops visit before it.
\<close>

definition isAnchor :: "ImageData \<Rightarrow> nat \<Rightarrow> nat \<Rightarrow> bool" where
  "isAnchor control x y =
     (case getPixel (data control) (width control) x y of
        (cr, cg, cb, ca) \<Rightarrow> \<not> strictEq ca (Some (Fin 0)))"

definition overwrites :: "nat \<Rightarrow> nat \<Rightarrow> ImageData \<Rightarrow> nat \<Rightarrow> nat \<Rightarrow> nat \<Rightarrow> nat \<Rightarrow> bool" where
  "overwrites w h control x y i j =
     (case getPixel (data control) (width control) x y of (cr, cg, cb, ca) \<Rightarrow>
        \<not> strictEq ca (Some (Fin 0)) \<and>
        (if strictEq cr (Some (Fin 255)) then j = y \<and> i < x
         else if strictEq cg (Some (Fin 255)) then i = x \<and> j < y
         else if strictEq cb (Some (Fin 255)) then j = y \<and> x < i \<and> i < w
         else i = x \<and> y < j \<and> j < h))"

definition visitedBefore :: "nat \<times> nat \<Rightarrow> nat \<times> nat \<Rightarrow> bool" where
  "visitedBefore a b = (case (a, b) of ((i, j), (x, y)) \<Rightarrow> i < x \<or> (i = x \<and> j < y))"

definition earlierAnchorsKept :: "nat \<Rightarrow> nat \<Rightarrow> ImageData \<Rightarrow> bool" where
  "earlierAnchorsKept w h control =
     (\<forall>x\<in>set [0..<width control]. \<forall>y\<in>set [0..<height control].
      \<forall>i\<in>set [0..<width control]. \<forall>j\<in>set [0..<height control].
        isAnchor control i j \<and> visitedBefore (i, j) (x, y) \<longrightarrow>
        \<not> overwrites w h control x y i j)"

text \<open>The byte positions written by the directives of a list of anchors.\<close>

definition writtenBy :: "nat \<Rightarrow> nat \<Rightarrow> ImageData \<Rightarrow> (nat \<times> nat) list \<Rightarrow> nat set" where
  "writtenBy w h control anchors =
     {p. \<exists>(x, y)\<in>set anchors. p div 4 \<in> written w h control x y}"

text \<open>Small buffers on which the statements below are evaluated.\<close>

definition exSource :: ImageData where
  "exSource = \<lparr>width = 2, height = 2,
     data = [1, 1, 1, 255,  2, 2, 2, 255,  3, 3, 3, 255,  4, 4, 4, 255]\<rparr>"

text \<open>Black (down) at \<open>(0, 0)\<close>, red (left) at \<open>(1, 0)\<close>, a transparent second row.\<close>

definition exControl :: ImageData where
  "exControl = \<lparr>width = 2, height = 2,
     data = [0, 0, 0, 255,  255, 0, 0, 255,  0, 0, 0, 0,  0, 0, 0, 0]\<rparr>"

text \<open>
  Blue (right) at \<open>(0, 0)\<close>, black (down) at \<open>(1, 0)\<close>: the first directive overwrites
  the anchor of the second, which the loops visit after it.
\<close>

definition exControlRight :: ImageData where
  "exControlRight = \<lparr>width = 2, height = 2,
     data = [0, 0, 255, 255,  0, 0, 0, 255,  0, 0, 0, 0,  0, 0, 0, 0]\<rparr>"

text \<open>One column: transparent at \<open>(0, 0)\<close>, green (up) at \<open>(0, 1)\<close>.\<close>

definition narrowControl :: ImageData where
  "narrowControl = \<lparr>width = 1, height = 2, data = [0, 0, 0, 0,  0, 255, 0, 255]\<rparr>"

text \<open>A source of three rows and a control image of one transparent column.\<close>

definition tallSource :: ImageData where
  "tallSource = \<lparr>width = 2, height = 3,
     data = [1, 1, 1, 255,  2, 2, 2, 255,  3, 3, 3, 255,  4, 4, 4, 255,
             5, 5, 5, 255,  6, 6, 6, 255]\<rparr>"

definition clearControl :: ImageData where
  "clearControl = \<lparr>width = 1, height = 2, data = [0, 0, 0, 0,  0, 0, 0, 0]\<rparr>"

section \<open>Radial corner extension (\<^verbatim>\<open>refill.ts\<close>, \<^verbatim>\<open>refillCorner\<close>)\<close>

definition TWO_PI :: real where
  "TWO_PI = pi * 2"

definition CENTER_COLOR :: PixelData where
  "CENTER_COLOR = (Some (Fin 0), Some (Fin 255), Some (Fin 0), Some (Fin 255))"

definition EDGE_COLOR :: PixelData where
  "EDGE_COLOR = (Some (Fin 255), Some (Fin 0), Some (Fin 255), Some (Fin 255))"

definition TARGET_COLOR :: PixelData where
  "TARGET_COLOR = (Some (Fin 0), Some (Fin 0), Some (Fin 0), Some (Fin 255))"

text \<open>
  A sample object.  The field \<open>ref\<close> stands for the identity of the object: \<^verbatim>\<open>===\<close>
  on two samples compares references, and every \<^verbatim>\<open>push\<close> of \<^verbatim>\<open>refillCorner\<close>
  allocates a fresh object, numbered here in allocation order.
\<close>

record Sample =
  angle :: real
  color :: PixelData
  ref :: nat

text \<open>
  The two ways \<^verbatim>\<open>refillCorner\<close> stops without a result: \<^verbatim>\<open>process.exit(1)\<close> after
  the warning that no center is defined, and the \<^verbatim>\<open>TypeError\<close> of reading a property
  of \<^verbatim>\<open>undefined\<close>.
\<close>

datatype error = NoCenter | TypeError

fun lerpSamples :: "Sample option \<Rightarrow> Sample option \<Rightarrow> real \<Rightarrow> error + PixelData" where
  "lerpSamples (Some before) (Some after) theta =
     (if ref before = ref after then Inr (color before)
      else
        (let distance = Fin (angle after - angle before);
             beforeInfluence = jsdiv (Fin (angle after - theta)) distance;
             afterInfluence = jsdiv (Fin (theta - angle before)) distance
         in case (color before, color after) of
              ((b0, b1, b2, b3), (a0, a1, a2, a3)) \<Rightarrow>
                Inr (Some (jsadd (jsmul beforeInfluence (toNumber b0)) (jsmul afterInfluence (toNumber a0))),
                     Some (jsadd (jsmul beforeInfluence (toNumber b1)) (jsmul afterInfluence (toNumber a1))),
                     Some (jsadd (jsmul beforeInfluence (toNumber b2)) (jsmul afterInfluence (toNumber a2))),
                     Some (jsadd (jsmul beforeInfluence (toNumber b3)) (jsmul afterInfluence (toNumber a3))))))"
| "lerpSamples _ _ theta = Inl TypeError"

definition adjustedAngle :: "bool \<Rightarrow> real \<Rightarrow> real" where
  "adjustedAngle bottomHalf rawAngle =
     (if bottomHalf then (if rawAngle \<le> 0 then rawAngle else rawAngle - TWO_PI)
      else (if rawAngle \<ge> 0 then rawAngle else rawAngle + TWO_PI))"

text \<open>
  \<^verbatim>\<open>Math.atan2(y, x)\<close> on finite arguments.  The arguments in \<^verbatim>\<open>refillCorner\<close> are
  differences of pixel coordinates, so neither is a negative zero.
\<close>

definition atan2 :: "real \<Rightarrow> real \<Rightarrow> real" where
  "atan2 y x =
     (if 0 < x then arctan (y / x)
      else if x < 0 then (if 0 \<le> y then arctan (y / x) + pi else arctan (y / x) - pi)
      else if 0 < y then pi / 2
      else if y < 0 then - (pi / 2)
      else 0)"

text \<open>\<^verbatim>\<open>xs[i]\<close> on an array: \<^verbatim>\<open>undefined\<close> outside its bounds.\<close>

definition jsIndex :: "'a list \<Rightarrow> int \<Rightarrow> 'a option" where
  "jsIndex xs i = (if 0 \<le> i \<and> i < int (length xs) then Some (xs ! nat i) else None)"

text \<open>\<^verbatim>\<open>a ?? b\<close> where \<open>a\<close> is an object or \<^verbatim>\<open>undefined\<close>.\<close>

definition nullish :: "'a option \<Rightarrow> 'a option \<Rightarrow> 'a option" where
  "nullish a b = (case a of Some v \<Rightarrow> Some v | None \<Rightarrow> b)"

text \<open>The first loop: the last pixel of the control quadrant with the center color.\<close>

definition findCenter :: "ImageData \<Rightarrow> (nat \<times> nat) option" where
  "findCenter controlPixels =
     fold (\<lambda>y. fold (\<lambda>x center.
             if \<not> hasColor (data controlPixels) (width controlPixels) x y CENTER_COLOR
             then center else Some (x, y))
           [0..<width controlPixels])
       [0..<height controlPixels] None"

text \<open>The angle of the ray from the center to the pixel, lines 138 and 152.\<close>

definition pixelAngle :: "bool \<Rightarrow> nat \<Rightarrow> nat \<Rightarrow> nat \<Rightarrow> nat \<Rightarrow> real" where
  "pixelAngle bottomHalf centerX centerY x y =
     adjustedAngle bottomHalf
       (atan2 (real_of_int (int centerY - int y)) (real_of_int (int x - int centerX)))"

definition collectSamples ::
  "ImageData \<Rightarrow> ImageData \<Rightarrow> bool \<Rightarrow> nat \<Rightarrow> nat \<Rightarrow> Sample list" where
  "collectSamples sourcePixels controlPixels bottomHalf centerX centerY =
     fold (\<lambda>y. fold (\<lambda>x unsortedSamples.
             if \<not> hasColor (data controlPixels) (width controlPixels) x y EDGE_COLOR
             then unsortedSamples
             else unsortedSamples @
               [\<lparr>angle = pixelAngle bottomHalf centerX centerY x y,
                 color = getPixel (data sourcePixels) (width controlPixels) x y,
                 ref = length unsortedSamples\<rparr>])
           [0..<width controlPixels])
       [0..<height controlPixels] []"

text \<open>\<^verbatim>\<open>sortBy\<close> of lodash is a stable ascending sort, as \<open>sort_key\<close> is.\<close>

definition sortedSamples ::
  "ImageData \<Rightarrow> ImageData \<Rightarrow> bool \<Rightarrow> nat \<Rightarrow> nat \<Rightarrow> Sample list" where
  "sortedSamples sourcePixels controlPixels bottomHalf centerX centerY =
     sort_key angle (collectSamples sourcePixels controlPixels bottomHalf centerX centerY)"

definition sampleBefore :: "Sample list \<Rightarrow> real \<Rightarrow> Sample option" where
  "sampleBefore samples theta =
     nullish (find (\<lambda>s. angle s \<le> theta) (rev samples)) (jsIndex samples 0)"

definition sampleAfter :: "Sample list \<Rightarrow> real \<Rightarrow> Sample option" where
  "sampleAfter samples theta =
     nullish (find (\<lambda>s. angle s \<ge> theta) samples) (jsIndex samples (int (length samples) - 1))"

text \<open>The body of the third pair of loops, at the pixel \<open>(x, y)\<close>.\<close>

definition refillBody ::
  "ImageData \<Rightarrow> Sample list \<Rightarrow> bool \<Rightarrow> nat \<Rightarrow> nat \<Rightarrow> nat \<Rightarrow> nat \<Rightarrow> ImageData
    \<Rightarrow> error + ImageData" where
  "refillBody controlPixels samples bottomHalf centerX centerY x y result =
     (if \<not> hasColor (data controlPixels) (width controlPixels) x y TARGET_COLOR
      then Inr result
      else
        (let theta = pixelAngle bottomHalf centerX centerY x y
         in case lerpSamples (sampleBefore samples theta) (sampleAfter samples theta) theta of
              Inl e \<Rightarrow> Inl e
            | Inr (r, g, b, a) \<Rightarrow> Inr (setPixel result x y r g b a)))"

text \<open>
  The result shares the pixel array of \<^verbatim>\<open>sourcePixels\<close>; the samples are read from it
  before the first write.  The two quadrants that \<^verbatim>\<open>extendCorners\<close> passes have the
  same dimensions; the check of the \<^verbatim>\<open>ImageData\<close> constructor that the length of
  the data fits the dimensions is not part of the model, and the statements that need
  it assume it.
\<close>

definition refillCorner :: "ImageData \<Rightarrow> ImageData \<Rightarrow> bool \<Rightarrow> error + ImageData" where
  "refillCorner sourcePixels controlPixels bottomHalf =
     (let result = \<lparr>width = width controlPixels, height = height controlPixels,
                     data = data sourcePixels\<rparr>
      in case findCenter controlPixels of
           None \<Rightarrow> Inl NoCenter
         | Some (centerX, centerY) \<Rightarrow>
             (let samples = sortedSamples sourcePixels controlPixels bottomHalf centerX centerY
              in fold (\<lambda>y. fold (\<lambda>x acc.
                        case acc of
                          Inl e \<Rightarrow> Inl e
                        | Inr res \<Rightarrow>
                            refillBody controlPixels samples bottomHalf centerX centerY x y res)
                      [0..<width controlPixels])
                   [0..<height controlPixels] (Inr result)))"


text \<open>
  Notions used to state what the third pair of loops does: the color computed for a
  target at the angle \<open>theta\<close>, a pixel value as it reads back after it was stored in
  the byte array, and the loop body as a step on the pair \<open>(y, x)\<close>.
\<close>

definition targetColor :: "Sample list \<Rightarrow> real \<Rightarrow> error + PixelData" where
  "targetColor samples theta =
     lerpSamples (sampleBefore samples theta) (sampleAfter samples theta) theta"

definition stored :: "PixelData \<Rightarrow> PixelData" where
  "stored c = (case c of (r, g, b, a) \<Rightarrow>
     (Some (Fin (real (unat (toUint8Clamp (toNumber r))))),
      Some (Fin (real (unat (toUint8Clamp (toNumber g))))),
      Some (Fin (real (unat (toUint8Clamp (toNumber b))))),
      Some (Fin (real (unat (toUint8Clamp (toNumber a)))))))"

definition refillStep ::
  "ImageData \<Rightarrow> Sample list \<Rightarrow> bool \<Rightarrow> nat \<Rightarrow> nat \<Rightarrow> nat \<times> nat \<Rightarrow> error + ImageData
    \<Rightarrow> error + ImageData" where
  "refillStep controlPixels samples bottomHalf centerX centerY =
     (\<lambda>(y, x) acc.
        case acc of
          Inl e \<Rightarrow> Inl e
        | Inr res \<Rightarrow> refillBody controlPixels samples bottomHalf centerX centerY x y res)"

text \<open>
  \<open>lastMarked P w h cx cy\<close>: the pixel \<open>(cx, cy)\<close> is the last one, in row-major order,
  of the \<open>w\<close> by \<open>h\<close> pixels that satisfy \<open>P\<close>.
\<close>

definition lastMarked :: "(nat \<Rightarrow> nat \<Rightarrow> bool) \<Rightarrow> nat \<Rightarrow> nat \<Rightarrow> nat \<Rightarrow> nat \<Rightarrow> bool" where
  "lastMarked P w h cx cy \<longleftrightarrow>
     cx < w \<and> cy < h \<and> P cx cy \<and>
     (\<forall>x<w. \<forall>y<h. P x y \<longrightarrow> y < cy \<or> (y = cy \<and> x \<le> cx))"

text \<open>Quadrants on which the statements below are evaluated.\<close>

definition quadSource :: ImageData where
  "quadSource = \<lparr>width = 4, height = 1,
     data = [9, 9, 9, 255,  10, 20, 30, 255,  40, 50, 60, 255,  7, 7, 7, 255]\<rparr>"

text \<open>A center, two edge pixels on one ray from it, and a target further on that ray.\<close>

definition sameRayControl :: ImageData where
  "sameRayControl = \<lparr>width = 4, height = 1,
     data = [0, 255, 0, 255,  255, 0, 255, 255,  255, 0, 255, 255,  0, 0, 0, 255]\<rparr>"

text \<open>
  Top-half quadrants with the center at \<open>(0, 0)\<close>.  In the first the target is at
  \<open>(1, 0)\<close>, at the angle 0, and the only edge pixel at \<open>(0, 1)\<close>, at three quarters of
  a turn; in the second they are exchanged.
\<close>

definition belowControl :: ImageData where
  "belowControl = \<lparr>width = 2, height = 2,
     data = [0, 255, 0, 255,  0, 0, 0, 255,  255, 0, 255, 255,  0, 0, 0, 0]\<rparr>"

definition aboveControl :: ImageData where
  "aboveControl = \<lparr>width = 2, height = 2,
     data = [0, 255, 0, 255,  255, 0, 255, 255,  0, 0, 0, 255,  0, 0, 0, 0]\<rparr>"

text \<open>A center, a target and no edge pixel.\<close>

definition noEdgeControl :: ImageData where
  "noEdgeControl = \<lparr>width = 4, height = 1,
     data = [0, 255, 0, 255,  0, 0, 0, 0,  0, 0, 0, 255,  0, 0, 0, 0]\<rparr>"

text \<open>An edge pixel, a target and no center.\<close>

definition noCenterControl :: ImageData where
  "noCenterControl = \<lparr>width = 4, height = 1,
     data = [0, 0, 0, 0,  255, 0, 255, 255,  0, 0, 0, 255,  0, 0, 0, 0]\<rparr>"

text \<open>Two centers, at \<open>(1, 0)\<close> and at \<open>(0, 1)\<close>.\<close>

definition twoCentersControl :: ImageData where
  "twoCentersControl = \<lparr>width = 2, height = 2,
     data = [0, 0, 0, 0,  0, 255, 0, 255,  0, 255, 0, 255,  0, 0, 0, 0]\<rparr>"

section \<open>The drawing surface\<close>

text \<open>
  \<^verbatim>\<open>addBleed\<close> paints through the 2D context of the \<^verbatim>\<open>canvas\<close> package, which is
  not part of the repository.  The specification describes what the transform relies on:
  a grid of RGBA pixels on which a copy of an image is painted under a horizontal and
  vertical scale of \<open>\<plusminus>1\<close> and a translation, a later paint overwriting an earlier one.
  The definitions of this section model that surface.  A new surface is transparent
  black, the current transform is kept as the scale and the translation of each axis,
  and a paint is exact on whole pixels.
\<close>

type_synonym rgba = "byte \<times> byte \<times> byte \<times> byte"

record Context2D =
  surfaceWidth :: nat
  surfaceHeight :: nat
  surface :: "nat \<Rightarrow> nat \<Rightarrow> rgba"
  ma :: int
  md :: int
  me :: int
  mf :: int
  saved :: "(int \<times> int \<times> int \<times> int) list"

definition createCanvas :: "nat \<Rightarrow> nat \<Rightarrow> Context2D" where
  \<comment> \<open>Modelled from the spec: a new drawing surface, transparent, identity transform.\<close>
  "createCanvas w h =
     \<lparr>surfaceWidth = w, surfaceHeight = h, surface = (\<lambda>x y. (0, 0, 0, 0)),
      ma = 1, md = 1, me = 0, mf = 0, saved = []\<rparr>"

definition byteAt :: "byte list \<Rightarrow> nat \<Rightarrow> byte" where
  "byteAt pixels i = (if i < length pixels then pixels ! i else 0)"

definition rgbaAt :: "ImageData \<Rightarrow> nat \<Rightarrow> nat \<Rightarrow> rgba" where
  "rgbaAt img x y =
     (let index = PIXEL_SIZE * (x + y * width img) in
      (byteAt (data img) index, byteAt (data img) (index + 1),
       byteAt (data img) (index + 2), byteAt (data img) (index + 3)))"

definition putImageData :: "Context2D \<Rightarrow> ImageData \<Rightarrow> nat \<Rightarrow> nat \<Rightarrow> Context2D" where
  \<comment> \<open>Modelled from the spec: paste the buffer at an offset, whatever the transform.\<close>
  "putImageData ctx img dx dy =
     ctx\<lparr>surface := (\<lambda>x y.
       if dx \<le> x \<and> x < dx + width img \<and> x < surfaceWidth ctx \<and>
          dy \<le> y \<and> y < dy + height img \<and> y < surfaceHeight ctx
       then rgbaAt img (x - dx) (y - dy)
       else surface ctx x y)\<rparr>"

definition getImageData :: "Context2D \<Rightarrow> nat \<Rightarrow> nat \<Rightarrow> nat \<Rightarrow> nat \<Rightarrow> ImageData" where
  \<comment> \<open>Modelled from the spec: read a rectangle of the surface into a new buffer.\<close>
  "getImageData ctx sx sy sw sh =
     \<lparr>width = sw, height = sh,
      data = concat (map (\<lambda>k.
        (case (if sx + k mod sw < surfaceWidth ctx \<and> sy + k div sw < surfaceHeight ctx
               then surface ctx (sx + k mod sw) (sy + k div sw) else (0, 0, 0, 0)) of
           (r, g, b, a) \<Rightarrow> [r, g, b, a])) [0..<sw * sh])\<rparr>"

definition save :: "Context2D \<Rightarrow> Context2D" where
  \<comment> \<open>Modelled from the spec: push the current transform.\<close>
  "save ctx = ctx\<lparr>saved := (ma ctx, md ctx, me ctx, mf ctx) # saved ctx\<rparr>"

definition restore :: "Context2D \<Rightarrow> Context2D" where
  \<comment> \<open>Modelled from the spec: pop the transform saved last, if there is one.\<close>
  "restore ctx =
     (case saved ctx of
        [] \<Rightarrow> ctx
      | (a, d, e, f) # rest \<Rightarrow> ctx\<lparr>ma := a, md := d, me := e, mf := f, saved := rest\<rparr>)"

definition translate :: "Context2D \<Rightarrow> int \<Rightarrow> int \<Rightarrow> Context2D" where
  \<comment> \<open>Modelled from the spec: shift the origin, in the current scale.\<close>
  "translate ctx x y = ctx\<lparr>me := me ctx + ma ctx * x, mf := mf ctx + md ctx * y\<rparr>"

definition scale :: "Context2D \<Rightarrow> int \<Rightarrow> int \<Rightarrow> Context2D" where
  \<comment> \<open>Modelled from the spec: multiply the scale of each axis.\<close>
  "scale ctx x y = ctx\<lparr>ma := ma ctx * x, md := md ctx * y\<rparr>"

text \<open>
  The image cell that the surface pixel at \<open>p\<close> shows on one axis, under the scale \<open>s\<close>
  and the translation \<open>t\<close> of that axis: the surface coordinate of an image coordinate
  \<open>u\<close> is \<open>t + s * u\<close>.
\<close>

definition sourceCell :: "int \<Rightarrow> int \<Rightarrow> int \<Rightarrow> int" where
  \<comment> \<open>Modelled from the spec: the inverse of the scale and shift on one axis.\<close>
  "sourceCell s t p = (if 0 < s then (p - t) div s else (t - 1 - p) div (- s))"

definition drawImage :: "Context2D \<Rightarrow> Context2D \<Rightarrow> int \<Rightarrow> int \<Rightarrow> Context2D" where
  \<comment> \<open>Modelled from the spec: paint a copy of the image under the current scale and
      translation; the painted pixels overwrite what was there.\<close>
  "drawImage ctx img dx dy =
     ctx\<lparr>surface := (\<lambda>x y.
       (let i = sourceCell (ma ctx) (me ctx) (int x) - dx;
            j = sourceCell (md ctx) (mf ctx) (int y) - dy
        in if ma ctx \<noteq> 0 \<and> md ctx \<noteq> 0 \<and> 0 \<le> i \<and> i < int (surfaceWidth img) \<and>
              0 \<le> j \<and> j < int (surfaceHeight img)
           then surface img (nat i) (nat j)
           else surface ctx x y))\<rparr>"

section \<open>Mirrored bleed (\<^verbatim>\<open>pipeline.ts\<close>, \<^verbatim>\<open>addBleed\<close>)\<close>

record Copy =
  scaleX :: int
  scaleY :: int
  shiftX :: int
  shiftY :: int

definition COPIES :: "Copy list" where
  "COPIES =
     [\<lparr>scaleX = -1, scaleY = 1, shiftX = 0, shiftY = 0\<rparr>,
      \<lparr>scaleX = -1, scaleY = 1, shiftX = 2, shiftY = 0\<rparr>,
      \<lparr>scaleX = 1, scaleY = -1, shiftX = 0, shiftY = 0\<rparr>,
      \<lparr>scaleX = 1, scaleY = -1, shiftX = 0, shiftY = 2\<rparr>,
      \<lparr>scaleX = -1, scaleY = -1, shiftX = 0, shiftY = 0\<rparr>,
      \<lparr>scaleX = -1, scaleY = -1, shiftX = 2, shiftY = 0\<rparr>,
      \<lparr>scaleX = -1, scaleY = -1, shiftX = 0, shiftY = 2\<rparr>,
      \<lparr>scaleX = -1, scaleY = -1, shiftX = 2, shiftY = 2\<rparr>]"

text \<open>The body of the loop over \<^verbatim>\<open>COPIES\<close>.\<close>

definition paintCopy :: "Context2D \<Rightarrow> nat \<Rightarrow> nat \<Rightarrow> nat \<Rightarrow> Copy \<Rightarrow> Context2D \<Rightarrow> Context2D" where
  "paintCopy sourceCanvas w h padding c ctx =
     restore
       (drawImage
         (scale
           (translate (save ctx)
             (shiftX c * int w + int padding) (shiftY c * int h + int padding))
           (scaleX c) (scaleY c))
         sourceCanvas 0 0)"

definition addBleed :: "ImageData \<Rightarrow> nat \<Rightarrow> ImageData" where
  "addBleed source padding =
     (let w = width source;
          h = height source;
          paddedWidth = w + 2 * padding;
          paddedHeight = h + 2 * padding;
          ctx = createCanvas paddedWidth paddedHeight;
          sourceCanvas = putImageData (createCanvas w h) source 0 0;
          ctx = drawImage ctx sourceCanvas (int padding) (int padding);
          ctx = fold (paintCopy sourceCanvas w h padding) COPIES ctx
      in getImageData ctx 0 0 paddedWidth paddedHeight)"

text \<open>
  Notions used to state what \<^verbatim>\<open>addBleed\<close> paints.  \<open>toPixelData\<close> is a surface pixel
  as \<^verbatim>\<open>getPixel\<close> reads it from a buffer, \<open>sourceCanvas\<close> the canvas holding the source,
  \<open>copyPixel\<close> the source pixel that one mirrored copy paints at \<open>(x, y)\<close>, if any, and
  \<open>bleedPixel\<close> the pixel of the padded canvas at \<open>(x, y)\<close> after the original and the
  eight copies were painted in order.
\<close>

definition toPixelData :: "rgba \<Rightarrow> PixelData" where
  "toPixelData v = (case v of (r, g, b, a) \<Rightarrow>
     (Some (Fin (real (unat r))), Some (Fin (real (unat g))),
      Some (Fin (real (unat b))), Some (Fin (real (unat a)))))"

definition sourceCanvas :: "ImageData \<Rightarrow> Context2D" where
  "sourceCanvas source = putImageData (createCanvas (width source) (height source)) source 0 0"

definition copyPixel ::
  "Context2D \<Rightarrow> nat \<Rightarrow> nat \<Rightarrow> nat \<Rightarrow> Copy \<Rightarrow> nat \<Rightarrow> nat \<Rightarrow> rgba option" where
  "copyPixel img w h padding c x y =
     (let i = sourceCell (scaleX c) (shiftX c * int w + int padding) (int x);
          j = sourceCell (scaleY c) (shiftY c * int h + int padding) (int y)
      in if scaleX c \<noteq> 0 \<and> scaleY c \<noteq> 0 \<and> 0 \<le> i \<and> i < int (surfaceWidth img) \<and>
            0 \<le> j \<and> j < int (surfaceHeight img)
         then Some (surface img (nat i) (nat j)) else None)"

definition identityTransform :: "Context2D \<Rightarrow> bool" where
  "identityTransform ctx \<longleftrightarrow> ma ctx = 1 \<and> md ctx = 1 \<and> me ctx = 0 \<and> mf ctx = 0"

definition bleedPixel :: "ImageData \<Rightarrow> nat \<Rightarrow> nat \<Rightarrow> nat \<Rightarrow> rgba" where
  "bleedPixel source padding x y =
     foldl (\<lambda>v c. case copyPixel (sourceCanvas source) (width source) (height source) padding c x y of
                     Some u \<Rightarrow> u | None \<Rightarrow> v)
       (if padding \<le> x \<and> x < padding + width source \<and> padding \<le> y \<and> y < padding + height source
        then rgbaAt source (x - padding) (y - padding) else (0, 0, 0, 0))
       COPIES"

text \<open>A buffer of one opaque pixel.\<close>

definition onePixel :: ImageData where
  "onePixel = \<lparr>width = 1, height = 1, data = [9, 8, 7, 255]\<rparr>"

section \<open>Properties of the raster buffer and of one directive\<close>

text \<open>
  A byte written through \<^verbatim>\<open>setPixel\<close> and read back is the byte itself when the value
  written came from a buffer.  The loop body of \<^verbatim>\<open>extendSides\<close> changes exactly the
  bytes of the pixels in \<open>written\<close>, each to the matching channel of the anchor's color.
\<close>

lemma roundHalfEven_of_nat [simp]: "roundHalfEven (real n) = int n"
  by (simp add: roundHalfEven_def)

lemma toUint8Clamp_of_nat: "n < 256 \<Longrightarrow> toUint8Clamp (Fin (real n)) = word_of_nat n"
proof -
  assume lt: "n < 256"
  show ?thesis
  proof (cases "n = 0 \<or> n = 255")
    case True then show ?thesis by auto
  next
    case False
    with lt have "\<not> real n \<le> 0" "\<not> 255 \<le> real n" by auto
    then show ?thesis by simp
  qed
qed

lemma toUint8Clamp_byte [simp]: "toUint8Clamp (Fin (unsigned (b::byte))) = b"
proof -
  have lt: "unat b < 256" using unsigned_less [of b] by simp
  have "toUint8Clamp (Fin (real (unat b))) = word_of_nat (unat b)"
    by (rule toUint8Clamp_of_nat [OF lt])
  then show ?thesis by simp
qed

lemma length_writeByte [simp]: "length (writeByte p i v) = length p"
  by (simp add: writeByte_def)

lemma nth_writeByte:
  "q < length p \<Longrightarrow> writeByte p i v ! q = (if q = i then toUint8Clamp (toNumber v) else p ! q)"
  by (simp add: writeByte_def)

lemma width_setPixel [simp]: "width (setPixel s x y r g b a) = width s"
  by (simp add: setPixel_def Let_def)

lemma height_setPixel [simp]: "height (setPixel s x y r g b a) = height s"
  by (simp add: setPixel_def Let_def)

lemma length_setPixel [simp]: "length (data (setPixel s x y r g b a)) = length (data s)"
  by (simp add: setPixel_def Let_def)

lemma nth_write4:
  assumes "4 * q' + k < length d" "k < 4"
  shows "writeByte (writeByte (writeByte (writeByte d (4 * q) r) (4 * q + 1) g) (4 * q + 2) b)
           (4 * q + 3) a ! (4 * q' + k) =
         (if q' = q then toUint8Clamp (toNumber (channel (r, g, b, a) k)) else d ! (4 * q' + k))"
proof (cases "q' = q")
  case True
  from assms(2) consider "k = 0" | "k = 1" | "k = 2" | "k = 3" by linarith
  then show ?thesis using assms(1) True
    by cases (simp_all add: nth_writeByte channel_def)
next
  case False
  then have "4 * q' + k \<noteq> 4 * q" "4 * q' + k \<noteq> 4 * q + 1" "4 * q' + k \<noteq> 4 * q + 2"
    "4 * q' + k \<noteq> 4 * q + 3"
    using assms(2) by presburger+
  then show ?thesis using assms(1) False by (simp add: nth_writeByte)
qed

lemma nth_setPixel:
  assumes "p < length (data s)"
  shows "data (setPixel s x y r g b a) ! p =
     (if p div 4 = x + y * width s then toUint8Clamp (toNumber (channel (r, g, b, a) (p mod 4)))
      else data s ! p)"
proof -
  define q where "q = x + y * width s"
  have p: "4 * (p div 4) + p mod 4 = p" by presburger
  have d: "data (setPixel s x y r g b a) =
      writeByte (writeByte (writeByte (writeByte (data s) (4 * q) r) (4 * q + 1) g) (4 * q + 2) b)
           (4 * q + 3) a"
    by (simp add: setPixel_def Let_def PIXEL_SIZE_def q_def)
  have lt: "4 * (p div 4) + p mod 4 < length (data s)"
    unfolding p using assms .
  have "p mod 4 < 4" by simp
  from nth_write4 [OF lt this, of q r g b a] show ?thesis
    unfolding d p q_def .
qed


lemma fold_setPixel:
  "width (fold (\<lambda>t s. setPixel s (fx t) (fy t) r g b a) ts s) = width s \<and>
   height (fold (\<lambda>t s. setPixel s (fx t) (fy t) r g b a) ts s) = height s \<and>
   length (data (fold (\<lambda>t s. setPixel s (fx t) (fy t) r g b a) ts s)) = length (data s) \<and>
   (\<forall>p<length (data s).
      data (fold (\<lambda>t s. setPixel s (fx t) (fy t) r g b a) ts s) ! p =
      (if p div 4 \<in> (\<lambda>t. fx t + fy t * width s) ` set ts
       then toUint8Clamp (toNumber (channel (r, g, b, a) (p mod 4)))
       else data s ! p))"
proof (induction ts arbitrary: s)
  case Nil
  show ?case by simp
next
  case (Cons t ts)
  show ?case
    using Cons.IH [of "setPixel s (fx t) (fy t) r g b a"]
    by (auto simp: nth_setPixel)
qed

lemma sidesBody_frame:
  "width (sidesBody control x y s) = width s \<and>
   height (sidesBody control x y s) = height s \<and>
   length (data (sidesBody control x y s)) = length (data s) \<and>
   (\<forall>p<length (data s).
      data (sidesBody control x y s) ! p =
      (if p div 4 \<in> written (width s) (height s) control x y
       then toUint8Clamp (toNumber (channel (getPixel (data s) (width s) x y) (p mod 4)))
       else data s ! p))"
proof -
  obtain cr cg cb ca where c: "getPixel (data control) (width s) x y = (cr, cg, cb, ca)"
    by (cases "getPixel (data control) (width s) x y") auto
  obtain r g b a where o: "getPixel (data s) (width s) x y = (r, g, b, a)"
    by (cases "getPixel (data s) (width s) x y") auto
  note row = fold_setPixel [where fx = "\<lambda>t. t" and fy = "\<lambda>t. y" and s = s and r = r
      and g = g and b = b and a = a]
  note col = fold_setPixel [where fx = "\<lambda>t. x" and fy = "\<lambda>t. t" and s = s and r = r
      and g = g and b = b and a = a]
  show ?thesis
    unfolding sidesBody_def written_def c o
    using row [of "[0..<x]"] row [of "[x + 1..<width s]"] col [of "[0..<y]"]
      col [of "[y + 1..<height s]"]
    by simp
qed


lemma index_inj:
  fixes a b c d w :: nat
  assumes "a < w" "b < w"
  shows "a + c * w = b + d * w \<longleftrightarrow> a = b \<and> c = d"
proof
  assume e: "a + c * w = b + d * w"
  have "(a + c * w) mod w = a" "(b + d * w) mod w = b" using assms by simp_all
  with e have ab: "a = b" by simp
  have "(a + c * w) div w = c" "(b + d * w) div w = d" using assms by simp_all
  with e have "c = d" by simp
  with ab show "a = b \<and> c = d" by simp
qed simp

lemma index_in_range:
  fixes i j w h :: nat
  assumes "i < w" "j < h"
  shows "i + j * w < w * h"
proof -
  have "i + j * w < w + j * w" using assms by simp
  also have "\<dots> = Suc j * w" by simp
  also have "\<dots> \<le> h * w" using assms by (intro mult_le_mono1) simp
  finally show ?thesis by (simp add: mult.commute)
qed

lemma channel_getPixel:
  assumes "q = x + y * w" "k < 4"
  shows "channel (getPixel d w x y) k = readByte d (4 * q + k)"
proof -
  from assms(2) consider "k = 0" | "k = 1" | "k = 2" | "k = 3" by linarith
  then show ?thesis
    by cases (simp_all add: channel_def getPixel_def Let_def PIXEL_SIZE_def assms(1))
qed

lemma getPixel_eqI:
  assumes "q = x + y * w" "q' = x' + y' * w'"
    and "\<And>k. k < 4 \<Longrightarrow> readByte d (4 * q + k) = readByte d' (4 * q' + k)"
  shows "getPixel d w x y = getPixel d' w' x' y'"
  using assms(3) [of 0] assms(3) [of 1] assms(3) [of 2] assms(3) [of 3]
  by (simp add: getPixel_def Let_def PIXEL_SIZE_def assms(1,2))

lemma div_mod_4:
  fixes q k :: nat
  assumes "k < 4"
  shows "(4 * q + k) div 4 = q" "(4 * q + k) mod 4 = k"
  using assms by simp_all

lemma getPixel_sidesBody:
  assumes wf: "length (data s) = 4 * width s * height s"
    and xy: "x < width s" "y < height s" and ij: "i < width s" "j < height s"
  shows "getPixel (data (sidesBody control x y s)) (width s) i j =
     (if i + j * width s \<in> written (width s) (height s) control x y
      then getPixel (data s) (width s) x y
      else getPixel (data s) (width s) i j)"
proof -
  let ?s' = "sidesBody control x y s"
  let ?w = "width s"
  define q where "q = i + j * ?w"
  define qa where "qa = x + y * ?w"
  note fr = sidesBody_frame [of control x y s]
  have len: "length (data ?s') = length (data s)" using fr by simp
  have rng: "4 * q + k < length (data s)" if "k < 4" for k
    using index_in_range [OF ij] that wf unfolding q_def by (simp add: mult.assoc)
  have rngA: "4 * qa + k < length (data s)" if "k < 4" for k
    using index_in_range [OF xy] that wf unfolding qa_def by (simp add: mult.assoc)
  have upd: "data ?s' ! (4 * q + k) =
      (if q \<in> written ?w (height s) control x y
       then toUint8Clamp (toNumber (readByte (data s) (4 * qa + k)))
       else data s ! (4 * q + k))" if k: "k < 4" for k
    using fr rng [OF k]
    by (simp only: div_mod_4 [OF k] channel_getPixel [OF qa_def k])
  show ?thesis
  proof (cases "q \<in> written ?w (height s) control x y")
    case True
    have "readByte (data ?s') (4 * q + k) = readByte (data s) (4 * qa + k)"
      if k: "k < 4" for k
      using upd [OF k] True rng [OF k] rngA [OF k] len
      by (simp add: readByte_def del: toUint8Clamp.simps)
    then have "getPixel (data ?s') ?w i j = getPixel (data s) ?w x y"
      by (rule getPixel_eqI [OF q_def qa_def])
    with True show ?thesis unfolding q_def by simp
  next
    case False
    have "readByte (data ?s') (4 * q + k) = readByte (data s) (4 * q + k)"
      if k: "k < 4" for k
      using upd [OF k] False rng [OF k] len by (simp add: readByte_def)
    then have "getPixel (data ?s') ?w i j = getPixel (data s) ?w i j"
      by (rule getPixel_eqI [OF q_def q_def])
    with False show ?thesis unfolding q_def by simp
  qed
qed

lemma strictEq_Fin [simp]: "strictEq a (Some (Fin r)) \<longleftrightarrow> a = Some (Fin r)"
  by (auto simp: strictEq_def)

lemma written_iff:
  assumes "x < w" "i < w" and c: "getPixel (data control) w x y = (cr, cg, cb, ca)"
  shows "i + j * w \<in> written w h control x y \<longleftrightarrow>
     ca \<noteq> Some (Fin 0) \<and>
     (if cr = Some (Fin 255) then j = y \<and> i < x
      else if cg = Some (Fin 255) then i = x \<and> j < y
      else if cb = Some (Fin 255) then j = y \<and> x < i
      else i = x \<and> y < j \<and> j < h)"
proof -
  have row: "i + j * w \<in> (\<lambda>t. t + y * w) ` A \<longleftrightarrow> j = y \<and> i \<in> A" if "\<forall>t\<in>A. t < w" for A
  proof
    assume "i + j * w \<in> (\<lambda>t. t + y * w) ` A"
    then obtain t where t: "t \<in> A" "i + j * w = t + y * w" by auto
    with that have "t < w" by simp
    from index_inj [OF assms(2) this] t show "j = y \<and> i \<in> A" by simp
  qed auto
  have col: "i + j * w \<in> (\<lambda>t. x + t * w) ` A \<longleftrightarrow> i = x \<and> j \<in> A" for A
  proof
    assume "i + j * w \<in> (\<lambda>t. x + t * w) ` A"
    then obtain t where t: "t \<in> A" "i + j * w = x + t * w" by auto
    from index_inj [OF assms(2,1)] t show "i = x \<and> j \<in> A" by simp
  qed auto
  have b1: "\<forall>t\<in>{0..<x}. t < w" and b2: "\<forall>t\<in>{x + 1..<w}. t < w" using assms(1) by auto
  consider (skip) "ca = Some (Fin 0)"
    | (left) "ca \<noteq> Some (Fin 0)" "cr = Some (Fin 255)"
    | (up) "ca \<noteq> Some (Fin 0)" "cr \<noteq> Some (Fin 255)" "cg = Some (Fin 255)"
    | (right) "ca \<noteq> Some (Fin 0)" "cr \<noteq> Some (Fin 255)" "cg \<noteq> Some (Fin 255)"
        "cb = Some (Fin 255)"
    | (down) "ca \<noteq> Some (Fin 0)" "cr \<noteq> Some (Fin 255)" "cg \<noteq> Some (Fin 255)"
        "cb \<noteq> Some (Fin 255)"
    by blast
  then show ?thesis
  proof cases
    case skip
    then have wr: "written w h control x y = {}" by (simp add: written_def c)
    with skip show ?thesis by simp
  next
    case left
    then have wr: "written w h control x y = (\<lambda>t. t + y * w) ` {0..<x}"
      by (simp add: written_def c)
    show ?thesis unfolding wr row [OF b1] using left by simp
  next
    case up
    then have wr: "written w h control x y = (\<lambda>t. x + t * w) ` {0..<y}"
      by (simp add: written_def c)
    show ?thesis unfolding wr col using up by simp
  next
    case right
    then have wr: "written w h control x y = (\<lambda>t. t + y * w) ` {x + 1..<w}"
      by (simp add: written_def c)
    show ?thesis unfolding wr row [OF b2] using right assms(2) by auto
  next
    case down
    then have wr: "written w h control x y = (\<lambda>t. x + t * w) ` {y + 1..<h}"
      by (simp add: written_def c)
    show ?thesis unfolding wr col using down by auto
  qed
qed

text \<open>
  What one directive does, for the control pixel \<open>(cr, cg, cb, ca)\<close> that the loop body
  reads at an anchor \<open>(x, y)\<close> inside a well-formed source.  If its alpha is 0 the body
  leaves the source as it is.  Otherwise the direction is chosen by the first match of:
  red is 255, left; green is 255, up; blue is 255, right; anything else, down.  After
  the body, every pixel \<open>(i, j)\<close> of the source in the chosen half-row or half-column,
  the anchor excluded, holds the color the source had at the anchor, and every other
  pixel, the anchor among them, holds what it held before.  The pixel read is the pixel
  of the control image at \<open>(x, y)\<close> when the control image is as wide as the source.
\<close>

lemma sidesBody_directive:
  assumes wf: "length (data source) = 4 * width source * height source"
    and xy: "x < width source" "y < height source"
    and ij: "i < width source" "j < height source"
    and c: "getPixel (data control) (width source) x y = (cr, cg, cb, ca)"
  shows "width (sidesBody control x y source) = width source \<and>
     height (sidesBody control x y source) = height source \<and>
     length (data (sidesBody control x y source)) = length (data source) \<and>
     (ca = Some (Fin 0) \<longrightarrow> sidesBody control x y source = source) \<and>
     (ca \<noteq> Some (Fin 0) \<longrightarrow>
        getPixel (data (sidesBody control x y source)) (width source) i j =
          (if (if cr = Some (Fin 255) then j = y \<and> i < x
               else if cg = Some (Fin 255) then i = x \<and> j < y
               else if cb = Some (Fin 255) then j = y \<and> x < i
               else i = x \<and> y < j)
           then getPixel (data source) (width source) x y
           else getPixel (data source) (width source) i j))"
proof -
  have skip: "sidesBody control x y source = source" if "ca = Some (Fin 0)"
    using that by (simp add: sidesBody_def c)
  have paint: "getPixel (data (sidesBody control x y source)) (width source) i j =
          (if (if cr = Some (Fin 255) then j = y \<and> i < x
               else if cg = Some (Fin 255) then i = x \<and> j < y
               else if cb = Some (Fin 255) then j = y \<and> x < i
               else i = x \<and> y < j)
           then getPixel (data source) (width source) x y
           else getPixel (data source) (width source) i j)" if "ca \<noteq> Some (Fin 0)"
    unfolding getPixel_sidesBody [OF wf xy ij] written_iff [OF xy(1) ij(1) c]
    using ij(2) that by simp
  show ?thesis
    using sidesBody_frame [of control x y source] skip paint by blast
qed

text \<open>
  Claim C9.  The claim is about every control pixel.  The loop body reads the control
  data with the width of the source as the row stride, so for a control image narrower
  than the source it does not decode the control pixel at \<open>(x, y)\<close>.  On \<open>exSource\<close>
  and \<open>narrowControl\<close> the control pixel at \<open>(0, 1)\<close> is an opaque green, the directive
  up, and the body leaves the source unchanged: the pixel \<open>(0, 0)\<close> does not get the
  color of the anchor.  On \<open>tallSource\<close> and \<open>clearControl\<close> the control pixel at
  \<open>(0, 1)\<close> has alpha 0 and is not skipped: the body reads past the end of the control
  data, decodes the directive down and overwrites the source pixel \<open>(0, 2)\<close>.
\<close>

theorem sidesBody_narrow_control:
  "getPixel (data narrowControl) (width narrowControl) 0 1 =
     (Some (Fin 0), Some (Fin 255), Some (Fin 0), Some (Fin 255)) \<and>
   sidesBody narrowControl 0 1 exSource = exSource \<and>
   getPixel (data (sidesBody narrowControl 0 1 exSource)) (width exSource) 0 0 =
     (Some (Fin 1), Some (Fin 1), Some (Fin 1), Some (Fin 255)) \<and>
   getPixel (data exSource) (width exSource) 0 1 =
     (Some (Fin 3), Some (Fin 3), Some (Fin 3), Some (Fin 255)) \<and>
   getPixel (data clearControl) (width clearControl) 0 1 =
     (Some (Fin 0), Some (Fin 0), Some (Fin 0), Some (Fin 0)) \<and>
   sidesBody clearControl 0 1 tallSource \<noteq> tallSource \<and>
   getPixel (data tallSource) (width tallSource) 0 2 =
     (Some (Fin 5), Some (Fin 5), Some (Fin 5), Some (Fin 255)) \<and>
   getPixel (data (sidesBody clearControl 0 1 tallSource)) (width tallSource) 0 2 =
     (Some (Fin 3), Some (Fin 3), Some (Fin 3), Some (Fin 255))"
proof -
  have n: "sidesBody narrowControl 0 1 exSource = exSource"
    by (simp add: sidesBody_def getPixel_def readByte_def PIXEL_SIZE_def strictEq_def
        exSource_def narrowControl_def)
  have c: "sidesBody clearControl 0 1 tallSource =
      \<lparr>width = 2, height = 3,
       data = [1, 1, 1, 255,  2, 2, 2, 255,  3, 3, 3, 255,  4, 4, 4, 255,
               3, 3, 3, 255,  6, 6, 6, 255]\<rparr>"
    by (simp add: sidesBody_def getPixel_def readByte_def PIXEL_SIZE_def strictEq_def
        setPixel_def writeByte_def tallSource_def clearControl_def upt_conv_Cons
        roundHalfEven_def)
  show ?thesis
    unfolding n c
    by (simp add: getPixel_def readByte_def PIXEL_SIZE_def exSource_def narrowControl_def
        tallSource_def clearControl_def)
qed

section \<open>Repeating \<^verbatim>\<open>extendSides\<close>\<close>

text \<open>
  The two nested loops are one fold over the positions of the control image in
  column-major order.  Take a control image as wide as the source in which no directive
  writes an anchor visited before it.  Then an anchor is written only before it is
  read, so the second pass reads at every anchor the color the first pass read there,
  every byte that some directive writes gets in the second pass the values it got in
  the first, and the other bytes are never touched.
\<close>

lemma fold_product:
  "fold (\<lambda>x. fold (\<lambda>y. f x y) ys) xs s = fold (\<lambda>(x, y). f x y) (List.product xs ys) s"
proof (induction xs arbitrary: s)
  case Nil
  show ?case by simp
next
  case (Cons x xs)
  have "fold (\<lambda>(x, y). f x y) (map (Pair x) ys) s = fold (f x) ys s"
    by (simp add: fold_map comp_def)
  then show ?case using Cons.IH by simp
qed

lemma getPixel_cong:
  assumes "length d' = length d"
    and "\<And>p. p < length d \<Longrightarrow> p div 4 = x + y * w \<Longrightarrow> d' ! p = d ! p"
  shows "getPixel d' w x y = getPixel d w x y"
proof -
  define q where "q = x + y * w"
  have "readByte d' (4 * q + k) = readByte d (4 * q + k)" if k: "k < 4" for k
    using assms(1) assms(2) [of "4 * q + k"] div_mod_4(1) [OF k, of q]
    by (simp add: readByte_def q_def)
  then show ?thesis by (rule getPixel_eqI [OF q_def q_def])
qed

lemma written_overwrites:
  assumes "width control = w" "x < w" "i < w"
  shows "i + j * w \<in> written w h control x y \<longleftrightarrow> overwrites w h control x y i j"
proof -
  obtain cr cg cb ca where c: "getPixel (data control) w x y = (cr, cg, cb, ca)"
    by (cases "getPixel (data control) w x y") auto
  show ?thesis
    unfolding written_iff [OF assms(2,3) c] overwrites_def assms(1) c using assms(3) by auto
qed

lemma written_anchor:
  assumes "width control = w" "written w h control x y \<noteq> {}"
  shows "isAnchor control x y"
  using assms by (auto simp: isAnchor_def written_def split: prod.splits if_splits)

lemma written_self:
  assumes "x < w"
  shows "x + y * w \<notin> written w h control x y"
proof -
  obtain cr cg cb ca where c: "getPixel (data control) w x y = (cr, cg, cb, ca)"
    by (cases "getPixel (data control) w x y") auto
  show ?thesis unfolding written_iff [OF assms assms c] by simp
qed

lemma sorted_wrt_product:
  assumes "sorted_wrt (<) xs" "sorted_wrt (<) ys"
  shows "sorted_wrt visitedBefore (List.product xs ys)"
  using assms(1)
proof (induction xs)
  case Nil
  show ?case by simp
next
  case (Cons x xs)
  have 1: "sorted_wrt visitedBefore (map (Pair x) ys)"
    using assms(2) by (simp add: sorted_wrt_map visitedBefore_def)
  have 2: "sorted_wrt visitedBefore (List.product xs ys)" using Cons by simp
  have 3: "\<forall>a\<in>set (map (Pair x) ys). \<forall>b\<in>set (List.product xs ys). visitedBefore a b"
    using Cons.prems by (auto simp: visitedBefore_def)
  show ?case using 1 2 3 by (simp add: sorted_wrt_append)
qed

lemma visit_order:
  assumes "List.product [0..<cw] [0..<ch] = P @ a # R" "b \<in> set R"
  shows "visitedBefore a b"
proof -
  have "sorted_wrt visitedBefore (List.product [0..<cw] [0..<ch])"
    by (rule sorted_wrt_product) simp_all
  then show ?thesis using assms by (simp add: sorted_wrt_append)
qed

lemma fold_sidesBody_frame:
  "width (fold (\<lambda>(x, y). sidesBody control x y) L s) = width s \<and>
   height (fold (\<lambda>(x, y). sidesBody control x y) L s) = height s \<and>
   length (data (fold (\<lambda>(x, y). sidesBody control x y) L s)) = length (data s) \<and>
   (\<forall>p<length (data s). p \<notin> writtenBy (width s) (height s) control L \<longrightarrow>
      data (fold (\<lambda>(x, y). sidesBody control x y) L s) ! p = data s ! p)"
proof (induction L arbitrary: s)
  case Nil
  show ?case by simp
next
  case (Cons a L)
  obtain x y where a: "a = (x, y)" by (cases a)
  let ?t = "sidesBody control x y s"
  note fr = sidesBody_frame [of control x y s]
  have dims: "width ?t = width s" "height ?t = height s" "length (data ?t) = length (data s)"
    using fr by simp_all
  have w: "writtenBy (width s) (height s) control (a # L) =
      {p. p div 4 \<in> written (width s) (height s) control x y} \<union>
      writtenBy (width s) (height s) control L"
    by (auto simp: writtenBy_def a)
  show ?case
    using Cons.IH [of ?t] fr unfolding dims w by (simp add: a)
qed


lemma writtenBy_append:
  "writtenBy w h control (P @ R) = writtenBy w h control P \<union> writtenBy w h control R"
  by (auto simp: writtenBy_def)

lemma writtenBy_single:
  "writtenBy w h control [(x, y)] = {p. p div 4 \<in> written w h control x y}"
  by (simp add: writtenBy_def)

lemma fold_sidesBody_second_pass:
  assumes eq: "width control = width s0"
    and ord: "\<And>P x y R bx by. L = P @ (x, y) # R \<Longrightarrow> (bx, by) \<in> set R \<Longrightarrow>
        isAnchor control x y \<Longrightarrow> \<not> overwrites (width s0) (height s0) control bx by x y"
    and inL: "\<forall>(x, y)\<in>set L. x < width control"
    and split: "L = P @ R"
    and p: "p < length (data s0)" "p \<in> writtenBy (width s0) (height s0) control P"
  shows "data (fold (\<lambda>(x, y). sidesBody control x y) P
            (fold (\<lambda>(x, y). sidesBody control x y) L s0)) ! p =
         data (fold (\<lambda>(x, y). sidesBody control x y) P s0) ! p"
  using split p
proof (induction P arbitrary: R p rule: rev_induct)
  case Nil
  then show ?case by (simp add: writtenBy_def)
next
  case (snoc a P)
  let ?F = "fold (\<lambda>(x, y). sidesBody control x y)"
  let ?w = "width s0" and ?h = "height s0"
  obtain x y where a: "a = (x, y)" by (cases a)
  have L: "L = P @ (x, y) # R" using snoc.prems(1) a by simp
  have x: "x < ?w" using inL L eq by auto
  define s1 where "s1 = ?F L s0"
  define t where "t = ?F P s1"
  define s where "s = ?F P s0"
  note fL = fold_sidesBody_frame [of control L s0]
  have d1: "width s1 = ?w" "height s1 = ?h" "length (data s1) = length (data s0)"
    using fL by (simp_all add: s1_def)
  note ft = fold_sidesBody_frame [of control P s1]
  have dt: "width t = ?w" "height t = ?h" "length (data t) = length (data s0)"
    using ft d1 by (simp_all add: t_def)
  note fs = fold_sidesBody_frame [of control P s0]
  have ds: "width s = ?w" "height s = ?h" "length (data s) = length (data s0)"
    using fs by (simp_all add: s_def)
  have ih: "data t ! q = data s ! q"
    if "q < length (data s0)" "q \<in> writtenBy ?w ?h control P" for q
    using snoc.IH [OF L that] by (simp add: t_def s_def s1_def)
  note stt = sidesBody_frame [of control x y t]
  note sts = sidesBody_frame [of control x y s]
  have step: "?F (P @ [a]) s1 = sidesBody control x y t" "?F (P @ [a]) s0 = sidesBody control x y s"
    by (simp_all add: a t_def s_def)
  show ?case
  proof (cases "p div 4 \<in> written ?w ?h control x y")
    case True
    then have an: "isAnchor control x y"
      using written_anchor [OF eq, of ?h x y] by auto
    have col: "getPixel (data t) ?w x y = getPixel (data s) ?w x y"
    proof (rule getPixel_cong)
      show "length (data t) = length (data s)" using dt ds by simp
    next
      fix q assume q: "q < length (data s)" "q div 4 = x + y * ?w"
      then have qn: "q < length (data s0)" using ds by simp
      show "data t ! q = data s ! q"
      proof (cases "q \<in> writtenBy ?w ?h control P")
        case True
        then show ?thesis by (rule ih [OF qn])
      next
        case notP: False
        have "q \<notin> writtenBy ?w ?h control R"
        proof
          assume "q \<in> writtenBy ?w ?h control R"
          then obtain bx "by" where b: "(bx, by) \<in> set R" "q div 4 \<in> written ?w ?h control bx by"
            by (auto simp: writtenBy_def)
          have "bx < ?w" using inL L b(1) eq by auto
          from written_overwrites [OF eq this x, of y ?h "by"] b(2) q(2)
          have "overwrites ?w ?h control bx by x y" by simp
          with ord [OF L b(1) an] show False by simp
        qed
        moreover have "q \<notin> writtenBy ?w ?h control [(x, y)]"
          using written_self [OF x, of y ?h control] q(2) by (simp add: writtenBy_single)
        ultimately have "q \<notin> writtenBy ?w ?h control L"
          using notP unfolding L by (auto simp: writtenBy_def)
        then have "data s1 ! q = data s0 ! q" using fL qn by (simp add: s1_def)
        moreover have "data t ! q = data s1 ! q" using ft notP qn d1 by (simp add: t_def)
        moreover have "data s ! q = data s0 ! q" using fs notP qn by (simp add: s_def)
        ultimately show ?thesis by simp
      qed
    qed
    have "data (sidesBody control x y t) ! p = data (sidesBody control x y s) ! p"
      using stt sts True snoc.prems(2) dt ds col by simp
    then show ?thesis unfolding step s1_def [symmetric] by simp
  next
    case False
    then have "p \<in> writtenBy ?w ?h control P"
      using snoc.prems(3) by (auto simp: writtenBy_def a)
    from ih [OF snoc.prems(2) this]
    have "data (sidesBody control x y t) ! p = data (sidesBody control x y s) ! p"
      using stt sts False snoc.prems(2) dt ds by simp
    then show ?thesis unfolding step s1_def [symmetric] by simp
  qed
qed

lemma extendSides_product:
  "extendSides source control =
     fold (\<lambda>(x, y). sidesBody control x y)
       (List.product [0..<width control] [0..<height control]) source"
  unfolding extendSides_def by (rule fold_product)

text \<open>
  Claim C2, as stated: applying \<^verbatim>\<open>extendSides\<close> twice with the same control image gives
  the same buffer as applying it once.  It fails when a directive overwrites the anchor
  of another one that the loops visit earlier: on \<open>exSource\<close> and \<open>exControl\<close> the first
  pass copies the old color of \<open>(0, 0)\<close> down and then overwrites \<open>(0, 0)\<close> from the right;
  the second pass copies the new color of \<open>(0, 0)\<close> down.
\<close>

theorem extendSides_not_idempotent:
  "extendSides (extendSides exSource exControl) exControl \<noteq> extendSides exSource exControl"
proof -
  have 1: "extendSides exSource exControl =
      \<lparr>width = 2, height = 2,
       data = [2, 2, 2, 255,  2, 2, 2, 255,  1, 1, 1, 255,  4, 4, 4, 255]\<rparr>"
    by (simp add: extendSides_def sidesBody_def getPixel_def readByte_def PIXEL_SIZE_def
        setPixel_def writeByte_def exSource_def exControl_def upt_conv_Cons
        roundHalfEven_def)
  have 2: "extendSides \<lparr>width = 2, height = 2,
       data = [2, 2, 2, 255,  2, 2, 2, 255,  1, 1, 1, 255,  4, 4, 4, 255]\<rparr> exControl =
      \<lparr>width = 2, height = 2,
       data = [2, 2, 2, 255,  2, 2, 2, 255,  2, 2, 2, 255,  4, 4, 4, 255]\<rparr>"
    by (simp add: extendSides_def sidesBody_def getPixel_def readByte_def PIXEL_SIZE_def
        setPixel_def writeByte_def exControl_def upt_conv_Cons
        roundHalfEven_def)
  show ?thesis unfolding 1 2 by simp
qed

text \<open>
  Claim C2, amended.  For a control image as wide as the source in which no directive
  overwrites the pixel of an anchor that the loops visit before it, applying
  \<^verbatim>\<open>extendSides\<close> twice with that control image gives the same buffer as applying it
  once.  A directive may overwrite an anchor visited after it, as in \<open>exControlRight\<close>.
\<close>

theorem extendSides_idempotent_kept:
  assumes eq: "width control = width source"
    and kept: "earlierAnchorsKept (width source) (height source) control"
  shows "extendSides (extendSides source control) control = extendSides source control"
proof -
  let ?L = "List.product [0..<width control] [0..<height control]"
  let ?F = "fold (\<lambda>(x, y). sidesBody control x y) ?L"
  have inL: "\<forall>(x, y)\<in>set ?L. x < width control" by auto
  have ord: "\<not> overwrites (width source) (height source) control bx by x y"
    if "?L = P @ (x, y) # R" "(bx, by) \<in> set R" "isAnchor control x y" for P x y R bx "by"
  proof -
    have v: "visitedBefore (x, y) (bx, by)" by (rule visit_order [OF that(1,2)])
    have "(x, y) \<in> set ?L" "(bx, by) \<in> set ?L" using that(1,2) by simp_all
    then have "x \<in> set [0..<width control]" "y \<in> set [0..<height control]"
      "bx \<in> set [0..<width control]" "by \<in> set [0..<height control]"
      by simp_all
    with kept v that(3) show ?thesis unfolding earlierAnchorsKept_def by blast
  qed
  note fr = fold_sidesBody_frame [of control ?L source]
  have dims: "width (?F source) = width source" "height (?F source) = height source"
    "length (data (?F source)) = length (data source)"
    using fr by simp_all
  note fr1 = fold_sidesBody_frame [of control ?L "?F source"]
  have dims2: "width (?F (?F source)) = width source" "height (?F (?F source)) = height source"
    "length (data (?F (?F source))) = length (data source)"
    using fr1 dims by simp_all
  have "data (?F (?F source)) ! p = data (?F source) ! p" if p: "p < length (data source)" for p
  proof (cases "p \<in> writtenBy (width source) (height source) control ?L")
    case True
    show ?thesis
      by (rule fold_sidesBody_second_pass [OF eq ord inL _ p True, where R = "[]"]) simp_all
  next
    case False
    then show ?thesis using fr1 p dims by simp
  qed
  then have "data (?F (?F source)) = data (?F source)"
    using dims dims2 by (intro nth_equalityI) simp_all
  then have "?F (?F source) = ?F source"
    using dims dims2 by (intro ImageData.equality) simp_all
  then show ?thesis by (simp only: extendSides_product)
qed

theorem extendSides_idempotent_kept_witness:
  "width exControlRight = width exSource \<and>
   earlierAnchorsKept (width exSource) (height exSource) exControlRight \<and>
   isAnchor exControlRight 1 0 \<and>
   overwrites (width exSource) (height exSource) exControlRight 0 0 1 0 \<and>
   extendSides (extendSides exSource exControlRight) exControlRight =
     extendSides exSource exControlRight"
proof -
  have eq: "width exControlRight = width exSource"
    by (simp add: exSource_def exControlRight_def)
  have kept: "earlierAnchorsKept (width exSource) (height exSource) exControlRight"
    by (simp add: earlierAnchorsKept_def isAnchor_def overwrites_def visitedBefore_def
        getPixel_def readByte_def PIXEL_SIZE_def exSource_def exControlRight_def upt_conv_Cons)
  have an: "isAnchor exControlRight 1 0"
    by (simp add: isAnchor_def getPixel_def readByte_def PIXEL_SIZE_def exControlRight_def)
  have ov: "overwrites (width exSource) (height exSource) exControlRight 0 0 1 0"
    by (simp add: overwrites_def getPixel_def readByte_def PIXEL_SIZE_def exSource_def
        exControlRight_def)
  show ?thesis
    using eq kept an ov extendSides_idempotent_kept [OF eq kept] by simp
qed

text \<open>
  Claim C1.  The loops of \<^verbatim>\<open>extendSides\<close> run over the bounds of the control image and
  no error is raised for a control image smaller than the source, but the control pixel
  is read with the width of the source as the row stride.  For a control image narrower
  than the source this is not the control image's own pixel at \<open>(x, y)\<close>.  With
  \<open>exSource\<close> (2 by 2) and \<open>narrowControl\<close> (1 by 2) the control's own pixel at
  \<open>(0, 1)\<close> is an opaque green, the directive up, which would give the source pixel
  \<open>(0, 0)\<close> the color of \<open>(0, 1)\<close>.  The loop body reads past the end of the control data
  instead, decodes the directive down from four undefined channels, and the source comes
  back unchanged.
\<close>

theorem extendSides_narrow_control:
  "width narrowControl \<le> width exSource \<and> height narrowControl \<le> height exSource \<and>
   getPixel (data narrowControl) (width narrowControl) 0 1 =
     (Some (Fin 0), Some (Fin 255), Some (Fin 0), Some (Fin 255)) \<and>
   getPixel (data narrowControl) (width exSource) 0 1 = (None, None, None, None) \<and>
   extendSides exSource narrowControl = exSource \<and>
   getPixel (data (extendSides exSource narrowControl)) (width exSource) 0 0 \<noteq>
     getPixel (data exSource) (width exSource) 0 1"
proof -
  have e: "extendSides exSource narrowControl = exSource"
    by (simp add: extendSides_def sidesBody_def getPixel_def readByte_def PIXEL_SIZE_def
        strictEq_def exSource_def narrowControl_def upt_conv_Cons)
  show ?thesis
    unfolding e
    by (simp add: getPixel_def readByte_def PIXEL_SIZE_def exSource_def narrowControl_def)
qed

section \<open>Center detection\<close>

lemma scan_row:
  fixes P :: "nat \<Rightarrow> bool" and y :: nat
  defines "r \<equiv> \<lambda>n c. fold (\<lambda>x center. if \<not> P x then center else Some (x, y)) [0..<n] c"
  shows "((\<forall>x<n. \<not> P x) \<and> r n c = c) \<or>
         (\<exists>cx<n. r n c = Some (cx, y) \<and> P cx \<and> (\<forall>x<n. P x \<longrightarrow> x \<le> cx))"
proof (induction n)
  case 0
  show ?case by (simp add: r_def)
next
  case (Suc n)
  have step: "r (Suc n) c = (if \<not> P n then r n c else Some (n, y))"
    by (simp add: r_def)
  show ?case
  proof (cases "P n")
    case True
    then have "r (Suc n) c = Some (n, y) \<and> P n \<and> (\<forall>x<Suc n. P x \<longrightarrow> x \<le> n)"
      using step by auto
    then show ?thesis by blast
  next
    case False
    from Suc.IH show ?thesis
    proof
      assume "(\<forall>x<n. \<not> P x) \<and> r n c = c"
      with False step have "(\<forall>x<Suc n. \<not> P x) \<and> r (Suc n) c = c"
        by (auto simp: less_Suc_eq)
      then show ?thesis by blast
    next
      assume "\<exists>cx<n. r n c = Some (cx, y) \<and> P cx \<and> (\<forall>x<n. P x \<longrightarrow> x \<le> cx)"
      then obtain cx where "cx < n" "r n c = Some (cx, y)" "P cx" "\<forall>x<n. P x \<longrightarrow> x \<le> cx"
        by blast
      with False step have "cx < Suc n \<and> r (Suc n) c = Some (cx, y) \<and> P cx \<and>
          (\<forall>x<Suc n. P x \<longrightarrow> x \<le> cx)"
        by (auto simp: less_Suc_eq)
      then show ?thesis by blast
    qed
  qed
qed

lemma scan_rows:
  fixes P :: "nat \<Rightarrow> nat \<Rightarrow> bool" and w :: nat
  defines "r \<equiv> \<lambda>m. fold (\<lambda>y. fold (\<lambda>x center. if \<not> P x y then center else Some (x, y)) [0..<w])
      [0..<m] None"
  shows "((\<forall>y<m. \<forall>x<w. \<not> P x y) \<and> r m = None) \<or>
         (\<exists>cx cy. r m = Some (cx, cy) \<and> lastMarked P w m cx cy)"
proof (induction m)
  case 0
  show ?case by (simp add: r_def)
next
  case (Suc m)
  have step: "r (Suc m) =
      fold (\<lambda>x center. if \<not> P x m then center else Some (x, m)) [0..<w] (r m)"
    by (simp add: r_def)
  from scan_row [where n = w and P = "\<lambda>x. P x m" and c = "r m" and y = m]
  show ?case
  proof
    assume row: "(\<forall>x<w. \<not> P x m) \<and>
        fold (\<lambda>x center. if \<not> P x m then center else Some (x, m)) [0..<w] (r m) = r m"
    then have same: "r (Suc m) = r m" using step by simp
    from Suc.IH show ?thesis
    proof
      assume "(\<forall>y<m. \<forall>x<w. \<not> P x y) \<and> r m = None"
      with row same have "(\<forall>y<Suc m. \<forall>x<w. \<not> P x y) \<and> r (Suc m) = None"
        by (auto simp: less_Suc_eq)
      then show ?thesis by blast
    next
      assume "\<exists>cx cy. r m = Some (cx, cy) \<and> lastMarked P w m cx cy"
      then obtain cx cy where c: "r m = Some (cx, cy)" "lastMarked P w m cx cy" by blast
      with row have "lastMarked P w (Suc m) cx cy"
        unfolding lastMarked_def by (auto simp: less_Suc_eq)
      with c same show ?thesis by auto
    qed
  next
    assume "\<exists>cx<w. fold (\<lambda>x center. if \<not> P x m then center else Some (x, m)) [0..<w] (r m) =
        Some (cx, m) \<and> P cx m \<and> (\<forall>x<w. P x m \<longrightarrow> x \<le> cx)"
    then obtain cx where c: "cx < w" "r (Suc m) = Some (cx, m)" "P cx m"
        "\<forall>x<w. P x m \<longrightarrow> x \<le> cx"
      using step by auto
    then have "lastMarked P w (Suc m) cx m"
      unfolding lastMarked_def by (auto simp: less_Suc_eq)
    with c show ?thesis by blast
  qed
qed

lemma findCenter_cases:
  "((\<forall>y<height c. \<forall>x<width c. \<not> hasColor (data c) (width c) x y CENTER_COLOR) \<and>
      findCenter c = None) \<or>
   (\<exists>cx cy. findCenter c = Some (cx, cy) \<and>
      lastMarked (\<lambda>x y. hasColor (data c) (width c) x y CENTER_COLOR) (width c) (height c) cx cy)"
  unfolding findCenter_def
  by (rule scan_rows [where m = "height c" and w = "width c"
        and P = "\<lambda>x y. hasColor (data c) (width c) x y CENTER_COLOR"])

text \<open>
  Claim C3.  If the control quadrant has a pixel equal to the center color
  \<open>(0, 255, 0, 255)\<close>, the center that \<^verbatim>\<open>refillCorner\<close> finds is the last such pixel in
  row-major order: every other one lies in an earlier row, or in the same row at a
  smaller column.  If it has none, no center is found and \<^verbatim>\<open>refillCorner\<close> exits with
  the fatal error, returning no buffer.
\<close>

theorem refillCorner_center:
  "((\<exists>x<width controlPixels. \<exists>y<height controlPixels.
        hasColor (data controlPixels) (width controlPixels) x y CENTER_COLOR) \<longrightarrow>
      (\<exists>cx cy. findCenter controlPixels = Some (cx, cy) \<and>
         cx < width controlPixels \<and> cy < height controlPixels \<and>
         hasColor (data controlPixels) (width controlPixels) cx cy CENTER_COLOR \<and>
         (\<forall>x<width controlPixels. \<forall>y<height controlPixels.
            hasColor (data controlPixels) (width controlPixels) x y CENTER_COLOR \<longrightarrow>
            y < cy \<or> (y = cy \<and> x \<le> cx)))) \<and>
   (\<not> (\<exists>x<width controlPixels. \<exists>y<height controlPixels.
        hasColor (data controlPixels) (width controlPixels) x y CENTER_COLOR) \<longrightarrow>
      findCenter controlPixels = None \<and>
      refillCorner sourcePixels controlPixels bottomHalf = Inl NoCenter)"
proof -
  from findCenter_cases [of controlPixels] show ?thesis
  proof
    assume n: "(\<forall>y<height controlPixels. \<forall>x<width controlPixels.
        \<not> hasColor (data controlPixels) (width controlPixels) x y CENTER_COLOR) \<and>
      findCenter controlPixels = None"
    then have "refillCorner sourcePixels controlPixels bottomHalf = Inl NoCenter"
      by (simp add: refillCorner_def)
    with n show ?thesis by auto
  next
    assume "\<exists>cx cy. findCenter controlPixels = Some (cx, cy) \<and>
      lastMarked (\<lambda>x y. hasColor (data controlPixels) (width controlPixels) x y CENTER_COLOR)
        (width controlPixels) (height controlPixels) cx cy"
    then show ?thesis unfolding lastMarked_def by blast
  qed
qed

theorem refillCorner_center_witness:
  "(\<exists>x<width twoCentersControl. \<exists>y<height twoCentersControl.
      hasColor (data twoCentersControl) (width twoCentersControl) x y CENTER_COLOR) \<and>
   findCenter twoCentersControl = Some (0, 1) \<and>
   \<not> (\<exists>x<width noCenterControl. \<exists>y<height noCenterControl.
      hasColor (data noCenterControl) (width noCenterControl) x y CENTER_COLOR) \<and>
   refillCorner quadSource noCenterControl False = Inl NoCenter"
proof -
  have "hasColor (data twoCentersControl) (width twoCentersControl) 0 1 CENTER_COLOR"
    by (simp add: hasColor_def getPixel_def readByte_def PIXEL_SIZE_def CENTER_COLOR_def
        twoCentersControl_def)
  moreover have "0 < width twoCentersControl" "1 < height twoCentersControl"
    by (simp_all add: twoCentersControl_def)
  ultimately have ex: "\<exists>x<width twoCentersControl. \<exists>y<height twoCentersControl.
      hasColor (data twoCentersControl) (width twoCentersControl) x y CENTER_COLOR"
    by blast
  have c: "findCenter twoCentersControl = Some (0, 1)"
    by (simp add: findCenter_def hasColor_def getPixel_def readByte_def PIXEL_SIZE_def
        CENTER_COLOR_def twoCentersControl_def upt_conv_Cons)
  have "\<forall>x\<in>set [0..<width noCenterControl]. \<forall>y\<in>set [0..<height noCenterControl].
      \<not> hasColor (data noCenterControl) (width noCenterControl) x y CENTER_COLOR"
    by (simp add: hasColor_def getPixel_def readByte_def PIXEL_SIZE_def CENTER_COLOR_def
        noCenterControl_def upt_conv_Cons)
  then have no: "\<not> (\<exists>x<width noCenterControl. \<exists>y<height noCenterControl.
      hasColor (data noCenterControl) (width noCenterControl) x y CENTER_COLOR)"
    by auto
  show ?thesis
    using ex c no refillCorner_center [of noCenterControl quadSource False]
      refillCorner_center [of twoCentersControl quadSource False]
    by blast
qed

section \<open>Samples, bracketing and the target fill\<close>

lemma fold_unchanged:
  "(\<And>a s. a \<in> set L \<Longrightarrow> f a s = s) \<Longrightarrow> fold f L s = s"
  by (induction L arbitrary: s) simp_all

lemma fold_invariant:
  "Q s \<Longrightarrow> (\<And>a s. a \<in> set L \<Longrightarrow> Q s \<Longrightarrow> Q (f a s)) \<Longrightarrow> Q (fold f L s)"
  by (induction L arbitrary: s) simp_all

lemma collectSamples_product:
  "collectSamples src ctl bh cx cy =
     fold (\<lambda>(y, x) unsortedSamples.
             if \<not> hasColor (data ctl) (width ctl) x y EDGE_COLOR
             then unsortedSamples
             else unsortedSamples @
               [\<lparr>angle = pixelAngle bh cx cy x y,
                 color = getPixel (data src) (width ctl) x y,
                 ref = length unsortedSamples\<rparr>])
       (List.product [0..<height ctl] [0..<width ctl]) []"
  unfolding collectSamples_def
  by (rule fold_product)

lemma collectSamples_no_edge:
  assumes "\<forall>x<width ctl. \<forall>y<height ctl. \<not> hasColor (data ctl) (width ctl) x y EDGE_COLOR"
  shows "collectSamples src ctl bh cx cy = []"
  unfolding collectSamples_product
  using assms by (intro fold_unchanged) auto

lemma collectSamples_sample:
  assumes "s \<in> set (collectSamples src ctl bh cx cy)"
  shows "\<exists>x<width ctl. \<exists>y<height ctl. hasColor (data ctl) (width ctl) x y EDGE_COLOR \<and>
           angle s = pixelAngle bh cx cy x y \<and> color s = getPixel (data src) (width ctl) x y"
proof -
  let ?Q = "\<lambda>acc :: Sample list. \<forall>s\<in>set acc. \<exists>x<width ctl. \<exists>y<height ctl.
      hasColor (data ctl) (width ctl) x y EDGE_COLOR \<and>
      angle s = pixelAngle bh cx cy x y \<and> color s = getPixel (data src) (width ctl) x y"
  have "?Q (collectSamples src ctl bh cx cy)"
    unfolding collectSamples_product
  proof (rule fold_invariant)
    show "?Q []" by simp
  next
    fix a and acc :: "Sample list"
    assume a: "a \<in> set (List.product [0..<height ctl] [0..<width ctl])" and Q: "?Q acc"
    obtain y x where yx: "a = (y, x)" by (cases a)
    with a have b: "x < width ctl" "y < height ctl" by auto
    show "?Q ((case a of (y, x) \<Rightarrow> \<lambda>unsortedSamples.
             if \<not> hasColor (data ctl) (width ctl) x y EDGE_COLOR
             then unsortedSamples
             else unsortedSamples @
               [\<lparr>angle = pixelAngle bh cx cy x y,
                 color = getPixel (data src) (width ctl) x y,
                 ref = length unsortedSamples\<rparr>]) acc)"
    proof (cases "hasColor (data ctl) (width ctl) x y EDGE_COLOR")
      case True
      with b have "\<exists>x'<width ctl. \<exists>y'<height ctl.
          hasColor (data ctl) (width ctl) x' y' EDGE_COLOR \<and>
          pixelAngle bh cx cy x y = pixelAngle bh cx cy x' y' \<and>
          getPixel (data src) (width ctl) x y = getPixel (data src) (width ctl) x' y'"
        by blast
      with Q True show ?thesis by (simp add: yx)
    next
      case False
      with Q show ?thesis by (simp add: yx)
    qed
  qed
  with assms show ?thesis by blast
qed

lemma collectSamples_edge:
  assumes "x < width ctl" "y < height ctl" "hasColor (data ctl) (width ctl) x y EDGE_COLOR"
  shows "collectSamples src ctl bh cx cy \<noteq> []"
proof -
  let ?f = "\<lambda>(y, x) unsortedSamples.
             if \<not> hasColor (data ctl) (width ctl) x y EDGE_COLOR
             then unsortedSamples
             else unsortedSamples @
               [\<lparr>angle = pixelAngle bh cx cy x y,
                 color = getPixel (data src) (width ctl) x y,
                 ref = length unsortedSamples\<rparr>]"
  have grow: "acc \<noteq> [] \<Longrightarrow> fold ?f L acc \<noteq> []" for L acc
    by (rule fold_invariant) (auto split: if_splits)
  have "(y, x) \<in> set L \<Longrightarrow> fold ?f L acc \<noteq> []" for L acc
  proof (induction L arbitrary: acc)
    case Nil
    then show ?case by simp
  next
    case (Cons a L)
    show ?case
    proof (cases "a = (y, x)")
      case True
      then have "?f a acc \<noteq> []" using assms(3) by simp
      then show ?thesis using grow [of "?f a acc" L] by simp
    next
      case False
      with Cons show ?thesis by simp
    qed
  qed
  moreover have "(y, x) \<in> set (List.product [0..<height ctl] [0..<width ctl])"
    using assms by simp
  ultimately show ?thesis unfolding collectSamples_product by blast
qed


lemma sampleBefore_Nil [simp]: "sampleBefore [] theta = None"
  by (simp add: sampleBefore_def nullish_def jsIndex_def)

lemma sampleAfter_Nil [simp]: "sampleAfter [] theta = None"
  by (simp add: sampleAfter_def nullish_def jsIndex_def)

lemma jsIndex_first: "samples \<noteq> [] \<Longrightarrow> jsIndex samples 0 = Some (hd samples)"
  by (simp add: jsIndex_def hd_conv_nth)

lemma jsIndex_last:
  "samples \<noteq> [] \<Longrightarrow> jsIndex samples (int (length samples) - 1) = Some (last samples)"
proof -
  assume ne: "samples \<noteq> []"
  then have "nat (int (length samples) - 1) = length samples - 1" by simp
  with ne show ?thesis by (simp add: jsIndex_def last_conv_nth)
qed

lemma bracket_below:
  fixes samples :: "Sample list"
  assumes ne: "samples \<noteq> []" and below: "\<forall>s\<in>set samples. theta < angle s"
  shows "sampleBefore samples theta = Some (hd samples)"
    and "sampleAfter samples theta = Some (hd samples)"
proof -
  have "find (\<lambda>s. angle s \<le> theta) (rev samples) = None"
    using below by (auto simp: find_None_iff)
  then show "sampleBefore samples theta = Some (hd samples)"
    using ne by (simp add: sampleBefore_def nullish_def jsIndex_first)
  obtain s rest where sr: "samples = s # rest" using ne by (cases samples) auto
  with below have "theta \<le> angle s" by auto
  then show "sampleAfter samples theta = Some (hd samples)"
    by (simp add: sampleAfter_def nullish_def sr)
qed

lemma bracket_above:
  fixes samples :: "Sample list"
  assumes ne: "samples \<noteq> []" and above: "\<forall>s\<in>set samples. angle s < theta"
  shows "sampleBefore samples theta = Some (last samples)"
    and "sampleAfter samples theta = Some (last samples)"
proof -
  have "find (\<lambda>s. theta \<le> angle s) samples = None"
    using above by (auto simp: find_None_iff)
  then show "sampleAfter samples theta = Some (last samples)"
    using ne by (simp add: sampleAfter_def nullish_def jsIndex_last)
  obtain s rest where sr: "rev samples = s # rest" using ne by (cases "rev samples") auto
  then have s: "s = last samples" using ne by (metis last_rev list.sel(1) rev_rev_ident rev_is_Nil_conv)
  have "s \<in> set samples" using sr by (metis list.set_intros(1) set_rev)
  with above have "angle s \<le> theta" by auto
  then show "sampleBefore samples theta = Some (last samples)"
    by (simp add: sampleBefore_def nullish_def sr s [symmetric])
qed

lemma bracket_defined:
  fixes samples :: "Sample list"
  assumes ne: "samples \<noteq> []"
  shows "\<exists>b a. sampleBefore samples theta = Some b \<and> sampleAfter samples theta = Some a"
proof -
  have "\<exists>b. sampleBefore samples theta = Some b"
    using ne by (auto simp: sampleBefore_def nullish_def jsIndex_first split: option.splits)
  moreover have "\<exists>a. sampleAfter samples theta = Some a"
    using ne by (auto simp: sampleAfter_def nullish_def jsIndex_last split: option.splits)
  ultimately show ?thesis by blast
qed

lemma lerpSamples_defined: "\<exists>c. lerpSamples (Some b) (Some a) theta = Inr c"
  by (cases "color b"; cases "color a") (simp add: Let_def)

lemma sorted_first_last:
  fixes samples :: "Sample list"
  assumes "sorted (map angle samples)" "s \<in> set samples"
  shows "angle (hd samples) \<le> angle s" "angle s \<le> angle (last samples)"
proof -
  from assms(2) obtain n where n: "n < length samples" "samples ! n = s"
    by (auto simp: in_set_conv_nth)
  then have ne: "samples \<noteq> []" by auto
  have "map angle samples ! 0 \<le> map angle samples ! n"
    using assms(1) n(1) by (intro sorted_nth_mono) simp_all
  then show "angle (hd samples) \<le> angle s" using n ne by (simp add: hd_conv_nth)
  have "map angle samples ! n \<le> map angle samples ! (length samples - 1)"
    using assms(1) n(1) by (intro sorted_nth_mono) simp_all
  then show "angle s \<le> angle (last samples)" using n ne by (simp add: last_conv_nth)
qed

lemma sorted_sortedSamples: "sorted (map angle (sortedSamples src ctl bh cx cy))"
  by (simp add: sortedSamples_def)

lemma set_sortedSamples:
  "set (sortedSamples src ctl bh cx cy) = set (collectSamples src ctl bh cx cy)"
  by (simp add: sortedSamples_def)


lemma refillCorner_product:
  "refillCorner src ctl bh =
     (case findCenter ctl of
        None \<Rightarrow> Inl NoCenter
      | Some (cx, cy) \<Rightarrow>
          fold (refillStep ctl (sortedSamples src ctl bh cx cy) bh cx cy)
            (List.product [0..<height ctl] [0..<width ctl])
            (Inr \<lparr>width = width ctl, height = height ctl, data = data src\<rparr>))"
  unfolding refillCorner_def Let_def refillStep_def fold_product ..

lemma refillStep_apply:
  "refillStep ctl samples bh cx cy (y, x) acc =
     (case acc of
        Inl e \<Rightarrow> Inl e
      | Inr res \<Rightarrow> refillBody ctl samples bh cx cy x y res)"
  by (simp add: refillStep_def)

lemma fold_refillStep_Inl [simp]:
  "fold (refillStep ctl samples bh cx cy) L (Inl e) = Inl e"
  by (induction L) (auto simp: refillStep_apply)

lemma refillBody_no_samples:
  "refillBody ctl [] bh cx cy x y res =
     (if hasColor (data ctl) (width ctl) x y TARGET_COLOR then Inl TypeError else Inr res)"
  by (simp add: refillBody_def Let_def)

lemma fold_refillStep_no_samples:
  "fold (refillStep ctl [] bh cx cy) L (Inr res) =
     (if \<exists>(y, x)\<in>set L. hasColor (data ctl) (width ctl) x y TARGET_COLOR
      then Inl TypeError else Inr res)"
proof (induction L)
  case Nil
  show ?case by simp
next
  case (Cons a L)
  obtain y x where a: "a = (y, x)" by (cases a)
  show ?case
    using Cons.IH by (simp add: a refillStep_apply refillBody_no_samples)
qed

lemmas quad_eval = findCenter_def hasColor_def getPixel_def readByte_def PIXEL_SIZE_def
  CENTER_COLOR_def EDGE_COLOR_def TARGET_COLOR_def sortedSamples_def collectSamples_def
  pixelAngle_def adjustedAngle_def atan2_def sampleBefore_def sampleAfter_def nullish_def
  jsIndex_def upt_conv_Cons


text \<open>
  Claim C10.  If the control quadrant has a center pixel and a target pixel but no edge
  pixel, a center is found, the sample list is empty, both bracketing samples of any
  target angle are \<^verbatim>\<open>undefined\<close>, \<^verbatim>\<open>lerpSamples\<close> throws on them, and
  \<^verbatim>\<open>refillCorner\<close> stops with that \<^verbatim>\<open>TypeError\<close>: it neither returns a buffer nor
  reports the missing-center error.
\<close>

theorem refillCorner_no_edge:
  assumes center: "\<exists>x<width controlPixels. \<exists>y<height controlPixels.
      hasColor (data controlPixels) (width controlPixels) x y CENTER_COLOR"
    and target: "\<exists>x<width controlPixels. \<exists>y<height controlPixels.
      hasColor (data controlPixels) (width controlPixels) x y TARGET_COLOR"
    and no_edge: "\<forall>x<width controlPixels. \<forall>y<height controlPixels.
      \<not> hasColor (data controlPixels) (width controlPixels) x y EDGE_COLOR"
  shows "(\<exists>centerX centerY. findCenter controlPixels = Some (centerX, centerY) \<and>
        sortedSamples sourcePixels controlPixels bottomHalf centerX centerY = []) \<and>
     sampleBefore [] theta = None \<and> sampleAfter [] theta = None \<and>
     lerpSamples None None theta = Inl TypeError \<and>
     refillCorner sourcePixels controlPixels bottomHalf = Inl TypeError"
proof -
  from findCenter_cases [of controlPixels] center
  obtain cx cy where c: "findCenter controlPixels = Some (cx, cy)" by blast
  have s: "sortedSamples sourcePixels controlPixels bottomHalf cx cy = []"
    using collectSamples_no_edge [OF no_edge] by (simp add: sortedSamples_def)
  from target obtain x y where t: "x < width controlPixels" "y < height controlPixels"
      "hasColor (data controlPixels) (width controlPixels) x y TARGET_COLOR"
    by blast
  then have "(y, x) \<in> set (List.product [0..<height controlPixels] [0..<width controlPixels])"
    by simp
  with t(3) have "\<exists>(y, x)\<in>set (List.product [0..<height controlPixels] [0..<width controlPixels]).
      hasColor (data controlPixels) (width controlPixels) x y TARGET_COLOR"
    by blast
  then have "fold (refillStep controlPixels [] bottomHalf cx cy)
      (List.product [0..<height controlPixels] [0..<width controlPixels])
      (Inr \<lparr>width = width controlPixels, height = height controlPixels,
            data = data sourcePixels\<rparr>) = Inl TypeError"
    by (simp only: fold_refillStep_no_samples if_True)
  then have "refillCorner sourcePixels controlPixels bottomHalf = Inl TypeError"
    by (simp add: refillCorner_product c s)
  with c s show ?thesis by simp
qed

theorem refillCorner_no_edge_witness:
  "(\<exists>x<width noEdgeControl. \<exists>y<height noEdgeControl.
      hasColor (data noEdgeControl) (width noEdgeControl) x y CENTER_COLOR) \<and>
   (\<exists>x<width noEdgeControl. \<exists>y<height noEdgeControl.
      hasColor (data noEdgeControl) (width noEdgeControl) x y TARGET_COLOR) \<and>
   \<not> (\<exists>x<width noEdgeControl. \<exists>y<height noEdgeControl.
      hasColor (data noEdgeControl) (width noEdgeControl) x y EDGE_COLOR) \<and>
   refillCorner quadSource noEdgeControl False = Inl TypeError"
proof -
  have b: "0 < width noEdgeControl" "2 < width noEdgeControl" "0 < height noEdgeControl"
    by (simp_all add: noEdgeControl_def)
  have "hasColor (data noEdgeControl) (width noEdgeControl) 0 0 CENTER_COLOR"
    by (simp add: hasColor_def getPixel_def readByte_def PIXEL_SIZE_def CENTER_COLOR_def
        noEdgeControl_def)
  with b have c: "\<exists>x<width noEdgeControl. \<exists>y<height noEdgeControl.
      hasColor (data noEdgeControl) (width noEdgeControl) x y CENTER_COLOR"
    by blast
  have "hasColor (data noEdgeControl) (width noEdgeControl) 2 0 TARGET_COLOR"
    by (simp add: hasColor_def getPixel_def readByte_def PIXEL_SIZE_def TARGET_COLOR_def
        noEdgeControl_def)
  with b have t: "\<exists>x<width noEdgeControl. \<exists>y<height noEdgeControl.
      hasColor (data noEdgeControl) (width noEdgeControl) x y TARGET_COLOR"
    by blast
  have "\<forall>x\<in>set [0..<width noEdgeControl]. \<forall>y\<in>set [0..<height noEdgeControl].
      \<not> hasColor (data noEdgeControl) (width noEdgeControl) x y EDGE_COLOR"
    by (simp add: hasColor_def getPixel_def readByte_def PIXEL_SIZE_def EDGE_COLOR_def
        noEdgeControl_def upt_conv_Cons)
  then have e: "\<forall>x<width noEdgeControl. \<forall>y<height noEdgeControl.
      \<not> hasColor (data noEdgeControl) (width noEdgeControl) x y EDGE_COLOR"
    by auto
  show ?thesis
    using c t e refillCorner_no_edge [OF c t e, of quadSource False 0] by blast
qed

lemma getPixel_setPixel_other:
  assumes "i + j * width s \<noteq> x + y * width s"
  shows "getPixel (data (setPixel s x y r g b a)) (width s) i j = getPixel (data s) (width s) i j"
  using assms by (intro getPixel_cong) (simp_all add: nth_setPixel)

lemma getPixel_tupleI:
  assumes "q = x + y * w" and "\<And>k. k < 4 \<Longrightarrow> readByte d (4 * q + k) = channel c k"
  shows "getPixel d w x y = c"
  using assms(2) [of 0] assms(2) [of 1] assms(2) [of 2] assms(2) [of 3]
  by (cases c) (simp add: getPixel_def Let_def PIXEL_SIZE_def assms(1) channel_def)

lemma channel_stored:
  "channel (stored c) k = Some (Fin (real (unat (toUint8Clamp (toNumber (channel c k))))))"
  by (cases c) (simp add: stored_def channel_def)

lemma getPixel_setPixel_same:
  assumes "4 * (x + y * width s) + 3 < length (data s)"
  shows "getPixel (data (setPixel s x y r g b a)) (width s) x y = stored (r, g, b, a)"
proof -
  define q where "q = x + y * width s"
  show ?thesis
  proof (rule getPixel_tupleI [OF q_def])
    fix k :: nat assume k: "k < 4"
    have lt: "4 * q + k < length (data s)" using assms k by (simp add: q_def)
    have "data (setPixel s x y r g b a) ! (4 * q + k) =
        toUint8Clamp (toNumber (channel (r, g, b, a) k))"
      using nth_setPixel [OF lt, of x y r g b a] div_mod_4 [OF k, of q] by (simp add: q_def)
    with lt show "readByte (data (setPixel s x y r g b a)) (4 * q + k) =
        channel (stored (r, g, b, a)) k"
      by (simp add: readByte_def channel_stored)
  qed
qed

lemma stored_getPixel:
  assumes "4 * (x + y * w) + 3 < length d"
  shows "stored (getPixel d w x y) = getPixel d w x y"
proof -
  define q where "q = x + y * w"
  show ?thesis
  proof (rule getPixel_tupleI [OF q_def, symmetric])
    fix k :: nat assume k: "k < 4"
    have lt: "4 * q + k < length d" using assms k by (simp add: q_def)
    show "readByte d (4 * q + k) = channel (stored (getPixel d w x y)) k"
      using lt by (simp add: channel_stored channel_getPixel [OF q_def k] readByte_def
          del: toUint8Clamp.simps)
  qed
qed

lemma refillBody_samples:
  fixes samples :: "Sample list"
  assumes ne: "samples \<noteq> []"
  shows "\<exists>c. targetColor samples (pixelAngle bh cx cy x y) = Inr c \<and>
     refillBody ctl samples bh cx cy x y res =
       Inr (if hasColor (data ctl) (width ctl) x y TARGET_COLOR
            then (case c of (r, g, b, a) \<Rightarrow> setPixel res x y r g b a) else res)"
proof -
  from bracket_defined [OF ne] obtain b a where
    "sampleBefore samples (pixelAngle bh cx cy x y) = Some b"
    "sampleAfter samples (pixelAngle bh cx cy x y) = Some a"
    by blast
  with lerpSamples_defined [of b a "pixelAngle bh cx cy x y"]
  obtain c where c: "targetColor samples (pixelAngle bh cx cy x y) = Inr c"
    by (auto simp: targetColor_def)
  then have "refillBody ctl samples bh cx cy x y res =
       Inr (if hasColor (data ctl) (width ctl) x y TARGET_COLOR
            then (case c of (r, g, b, a) \<Rightarrow> setPixel res x y r g b a) else res)"
    by (cases c) (simp add: refillBody_def Let_def targetColor_def)
  with c show ?thesis by blast
qed

lemma fold_refillStep_samples:
  fixes samples :: "Sample list"
  assumes ne: "samples \<noteq> []"
    and L: "\<forall>(j, i)\<in>set L. i < width ctl"
    and w: "width res = width ctl"
  shows "\<exists>out. fold (refillStep ctl samples bh cx cy) L (Inr res) = Inr out \<and>
     width out = width ctl \<and> height out = height res \<and>
     length (data out) = length (data res) \<and>
     (\<forall>i j. i < width ctl \<and> (j, i) \<notin> set L \<longrightarrow>
        getPixel (data out) (width ctl) i j = getPixel (data res) (width ctl) i j) \<and>
     (distinct L \<longrightarrow>
        (\<forall>(j, i)\<in>set L. \<forall>c.
           hasColor (data ctl) (width ctl) i j TARGET_COLOR \<and>
           4 * (i + j * width ctl) + 3 < length (data res) \<and>
           targetColor samples (pixelAngle bh cx cy i j) = Inr c \<longrightarrow>
           getPixel (data out) (width ctl) i j = stored c))"
  using L w
proof (induction L arbitrary: res)
  case Nil
  then show ?case by simp
next
  case (Cons a L)
  obtain y x where a: "a = (y, x)" by (cases a)
  have x: "x < width ctl" using Cons.prems(1) a by simp
  from refillBody_samples [OF ne, of bh cx cy x y ctl res]
  obtain c where c: "targetColor samples (pixelAngle bh cx cy x y) = Inr c"
    and body: "refillBody ctl samples bh cx cy x y res =
       Inr (if hasColor (data ctl) (width ctl) x y TARGET_COLOR
            then (case c of (r, g, b, a) \<Rightarrow> setPixel res x y r g b a) else res)"
    by blast
  define res' where "res' = (if hasColor (data ctl) (width ctl) x y TARGET_COLOR
            then (case c of (r, g, b, a) \<Rightarrow> setPixel res x y r g b a) else res)"
  obtain r g b al where crgb: "c = (r, g, b, al)" by (cases c)
  have dims: "width res' = width ctl" "height res' = height res"
    "length (data res') = length (data res)"
    using Cons.prems(2) by (simp_all add: res'_def crgb)
  have other: "getPixel (data res') (width ctl) i j = getPixel (data res) (width ctl) i j"
    if "i < width ctl" "(j, i) \<noteq> (y, x)" for i j
  proof -
    have "i + j * width res \<noteq> x + y * width res"
      using that x index_inj [of i "width ctl" x j y] Cons.prems(2) by auto
    from getPixel_setPixel_other [OF this] show ?thesis
      using Cons.prems(2) by (simp add: res'_def crgb)
  qed
  have same: "getPixel (data res') (width ctl) x y = stored c"
    if "hasColor (data ctl) (width ctl) x y TARGET_COLOR"
      "4 * (x + y * width ctl) + 3 < length (data res)"
    using that getPixel_setPixel_same [of x y res r g b al] Cons.prems(2)
    by (simp add: res'_def crgb)
  have step: "fold (refillStep ctl samples bh cx cy) (a # L) (Inr res) =
      fold (refillStep ctl samples bh cx cy) L (Inr res')"
    by (simp add: a refillStep_apply body res'_def)
  have "\<forall>(j, i)\<in>set L. i < width ctl" using Cons.prems(1) by simp
  from Cons.IH [OF this dims(1)]
  obtain out where out: "fold (refillStep ctl samples bh cx cy) L (Inr res') = Inr out"
    "width out = width ctl" "height out = height res'" "length (data out) = length (data res')"
    and keep: "\<And>i j. i < width ctl \<Longrightarrow> (j, i) \<notin> set L \<Longrightarrow>
        getPixel (data out) (width ctl) i j = getPixel (data res') (width ctl) i j"
    and fill: "\<And>i j c. distinct L \<Longrightarrow> (j, i) \<in> set L \<Longrightarrow>
        hasColor (data ctl) (width ctl) i j TARGET_COLOR \<Longrightarrow>
        4 * (i + j * width ctl) + 3 < length (data res') \<Longrightarrow>
        targetColor samples (pixelAngle bh cx cy i j) = Inr c \<Longrightarrow>
        getPixel (data out) (width ctl) i j = stored c"
    by blast
  have 1: "getPixel (data out) (width ctl) i j = getPixel (data res) (width ctl) i j"
    if "i < width ctl" "(j, i) \<notin> set (a # L)" for i j
    using that keep [of i j] other [of i j] by (simp add: a)
  have 2: "getPixel (data out) (width ctl) i j = stored c'"
    if d: "distinct (a # L)" and m: "(j, i) \<in> set (a # L)"
      and t: "hasColor (data ctl) (width ctl) i j TARGET_COLOR"
      and r: "4 * (i + j * width ctl) + 3 < length (data res)"
      and c': "targetColor samples (pixelAngle bh cx cy i j) = Inr c'" for i j c'
  proof (cases "(j, i) = (y, x)")
    case True
    then have "(y, x) \<notin> set L" using d a by simp
    then have "getPixel (data out) (width ctl) x y = getPixel (data res') (width ctl) x y"
      using keep [of x y] x by simp
    also have "\<dots> = stored c" using same t r True by simp
    finally show ?thesis using True c c' by simp
  next
    case False
    then have "(j, i) \<in> set L" using m a by auto
    then show ?thesis using fill [of j i c'] d t r c' dims by simp
  qed
  show ?case
    unfolding step using out dims 1 2 by (auto simp: a)
qed


text \<open>
  Claim C7.  In a quadrant with a center, at least one sample and well-formed pixel data,
  \<^verbatim>\<open>refillCorner\<close> returns a buffer.  The first and the last of the sorted samples have
  the smallest and the largest angle.  A target pixel whose angle is below the smallest
  sample angle is given the color of the first sample, and one whose angle is above the
  largest sample angle the color of the last sample: the two bracketing samples are the
  same entry, nothing is interpolated, and the pixel of the returned buffer holds
  exactly that color.
\<close>

theorem refillCorner_clamp:
  assumes wf: "length (data sourcePixels) = 4 * width controlPixels * height controlPixels"
    and center: "findCenter controlPixels = Some (centerX, centerY)"
    and samples: "samples = sortedSamples sourcePixels controlPixels bottomHalf centerX centerY"
    and ne: "samples \<noteq> []"
    and xy: "x < width controlPixels" "y < height controlPixels"
    and target: "hasColor (data controlPixels) (width controlPixels) x y TARGET_COLOR"
    and theta: "theta = pixelAngle bottomHalf centerX centerY x y"
  shows "\<exists>out. refillCorner sourcePixels controlPixels bottomHalf = Inr out \<and>
     (\<forall>s\<in>set samples. angle (hd samples) \<le> angle s \<and> angle s \<le> angle (last samples)) \<and>
     (theta < angle (hd samples) \<longrightarrow>
        targetColor samples theta = Inr (color (hd samples)) \<and>
        getPixel (data out) (width controlPixels) x y = color (hd samples)) \<and>
     (angle (last samples) < theta \<longrightarrow>
        targetColor samples theta = Inr (color (last samples)) \<and>
        getPixel (data out) (width controlPixels) x y = color (last samples))"
proof -
  let ?w = "width controlPixels" and ?h = "height controlPixels"
  let ?L = "List.product [0..<?h] [0..<?w]"
  let ?res = "\<lparr>width = ?w, height = ?h, data = data sourcePixels\<rparr>"
  have ext: "angle (hd samples) \<le> angle s \<and> angle s \<le> angle (last samples)"
    if "s \<in> set samples" for s
    using sorted_first_last [OF _ that] sorted_sortedSamples samples by blast
  have L: "\<forall>(j, i)\<in>set ?L. i < ?w" by auto
  have d: "distinct ?L" by (simp add: distinct_product)
  from fold_refillStep_samples [OF ne L, of ?res bottomHalf centerX centerY]
  obtain out where out: "fold (refillStep controlPixels samples bottomHalf centerX centerY) ?L
        (Inr ?res) = Inr out"
    and fill: "\<And>i j c. (j, i) \<in> set ?L \<Longrightarrow>
        hasColor (data controlPixels) ?w i j TARGET_COLOR \<Longrightarrow>
        4 * (i + j * ?w) + 3 < length (data ?res) \<Longrightarrow>
        targetColor samples (pixelAngle bottomHalf centerX centerY i j) = Inr c \<Longrightarrow>
        getPixel (data out) ?w i j = stored c"
    using d by auto
  have r: "refillCorner sourcePixels controlPixels bottomHalf = Inr out"
    using out by (simp add: refillCorner_product center samples)
  have rng: "4 * (i + j * ?w) + 3 < length (data sourcePixels)" if "i < ?w" "j < ?h" for i j
    using index_in_range [OF that] wf by (simp add: mult.assoc)
  have px: "getPixel (data out) ?w x y = stored c" if "targetColor samples theta = Inr c" for c
    using fill [of y x c] xy target rng [OF xy] that theta by simp
  have byte: "stored (color s) = color s" if "s \<in> set samples" for s
  proof -
    from that have "s \<in> set (collectSamples sourcePixels controlPixels bottomHalf centerX centerY)"
      by (simp add: samples set_sortedSamples)
    from collectSamples_sample [OF this] obtain i j where
      "i < ?w" "j < ?h" "color s = getPixel (data sourcePixels) ?w i j"
      by blast
    then show ?thesis using stored_getPixel [OF rng] by simp
  qed
  have hd: "hd samples \<in> set samples" and last: "last samples \<in> set samples"
    using ne by simp_all
  have below: "targetColor samples theta = Inr (color (hd samples)) \<and>
        getPixel (data out) ?w x y = color (hd samples)" if "theta < angle (hd samples)"
  proof -
    have "\<forall>s\<in>set samples. theta < angle s" using that ext by fastforce
    from bracket_below [OF ne this]
    have t: "targetColor samples theta = Inr (color (hd samples))"
      by (simp add: targetColor_def)
    with px [OF t] byte [OF hd] show ?thesis by simp
  qed
  have above: "targetColor samples theta = Inr (color (last samples)) \<and>
        getPixel (data out) ?w x y = color (last samples)" if "angle (last samples) < theta"
  proof -
    have "\<forall>s\<in>set samples. angle s < theta" using that ext by fastforce
    from bracket_above [OF ne this]
    have t: "targetColor samples theta = Inr (color (last samples))"
      by (simp add: targetColor_def)
    with px [OF t] byte [OF last] show ?thesis by simp
  qed
  show ?thesis using r ext below above by blast
qed

theorem refillCorner_clamp_witness:
  "length (data exSource) = 4 * width belowControl * height belowControl \<and>
   findCenter belowControl = Some (0, 0) \<and>
   sortedSamples exSource belowControl False 0 0 \<noteq> [] \<and>
   hasColor (data belowControl) (width belowControl) 1 0 TARGET_COLOR \<and>
   pixelAngle False 0 0 1 0 < angle (hd (sortedSamples exSource belowControl False 0 0)) \<and>
   (\<exists>out. refillCorner exSource belowControl False = Inr out \<and>
      getPixel (data out) (width belowControl) 1 0 =
        (Some (Fin 3), Some (Fin 3), Some (Fin 3), Some (Fin 255))) \<and>
   length (data exSource) = 4 * width aboveControl * height aboveControl \<and>
   findCenter aboveControl = Some (0, 0) \<and>
   sortedSamples exSource aboveControl False 0 0 \<noteq> [] \<and>
   hasColor (data aboveControl) (width aboveControl) 0 1 TARGET_COLOR \<and>
   angle (last (sortedSamples exSource aboveControl False 0 0)) < pixelAngle False 0 0 0 1 \<and>
   (\<exists>out. refillCorner exSource aboveControl False = Inr out \<and>
      getPixel (data out) (width aboveControl) 0 1 =
        (Some (Fin 2), Some (Fin 2), Some (Fin 2), Some (Fin 255)))"
proof -
  have wfb: "length (data exSource) = 4 * width belowControl * height belowControl"
    by (simp add: exSource_def belowControl_def)
  have cb: "findCenter belowControl = Some (0, 0)"
    by (simp add: quad_eval belowControl_def)
  have sb: "sortedSamples exSource belowControl False 0 0 =
      [\<lparr>angle = pixelAngle False 0 0 0 1,
        color = (Some (Fin 3), Some (Fin 3), Some (Fin 3), Some (Fin 255)), ref = 0\<rparr>]"
    by (simp add: sortedSamples_def collectSamples_def hasColor_def getPixel_def readByte_def
        PIXEL_SIZE_def EDGE_COLOR_def upt_conv_Cons belowControl_def exSource_def)
  have tb: "hasColor (data belowControl) (width belowControl) 1 0 TARGET_COLOR"
    by (simp add: hasColor_def getPixel_def readByte_def PIXEL_SIZE_def TARGET_COLOR_def
        belowControl_def)
  have ab: "pixelAngle False 0 0 1 0 < angle (hd (sortedSamples exSource belowControl False 0 0))"
    unfolding sb 
    by (simp add: pixelAngle_def adjustedAngle_def atan2_def TWO_PI_def not_le)
  have bb: "1 < width belowControl" "0 < height belowControl"
    by (simp_all add: belowControl_def)
  have neb: "sortedSamples exSource belowControl False 0 0 \<noteq> []" unfolding sb by simp
  have hb: "color (hd (sortedSamples exSource belowControl False 0 0)) =
      (Some (Fin 3), Some (Fin 3), Some (Fin 3), Some (Fin 255))"
    unfolding sb by simp
  have wfa: "length (data exSource) = 4 * width aboveControl * height aboveControl"
    by (simp add: exSource_def aboveControl_def)
  have ca: "findCenter aboveControl = Some (0, 0)"
    by (simp add: quad_eval aboveControl_def)
  have sa: "sortedSamples exSource aboveControl False 0 0 =
      [\<lparr>angle = pixelAngle False 0 0 1 0,
        color = (Some (Fin 2), Some (Fin 2), Some (Fin 2), Some (Fin 255)), ref = 0\<rparr>]"
    by (simp add: sortedSamples_def collectSamples_def hasColor_def getPixel_def readByte_def
        PIXEL_SIZE_def EDGE_COLOR_def upt_conv_Cons aboveControl_def exSource_def)
  have ta: "hasColor (data aboveControl) (width aboveControl) 0 1 TARGET_COLOR"
    by (simp add: hasColor_def getPixel_def readByte_def PIXEL_SIZE_def TARGET_COLOR_def
        aboveControl_def)
  have aa: "angle (last (sortedSamples exSource aboveControl False 0 0)) < pixelAngle False 0 0 0 1"
    unfolding sa 
    by (simp add: pixelAngle_def adjustedAngle_def atan2_def TWO_PI_def not_le)
  have ba: "0 < width aboveControl" "1 < height aboveControl"
    by (simp_all add: aboveControl_def)
  have nea: "sortedSamples exSource aboveControl False 0 0 \<noteq> []" unfolding sa by simp
  have ha: "color (last (sortedSamples exSource aboveControl False 0 0)) =
      (Some (Fin 2), Some (Fin 2), Some (Fin 2), Some (Fin 255))"
    unfolding sa by simp
  from refillCorner_clamp [OF wfb cb refl neb bb tb refl] ab hb
  have 1: "\<exists>out. refillCorner exSource belowControl False = Inr out \<and>
      getPixel (data out) (width belowControl) 1 0 =
        (Some (Fin 3), Some (Fin 3), Some (Fin 3), Some (Fin 255))"
    by auto
  from refillCorner_clamp [OF wfa ca refl nea ba ta refl] aa ha
  have 2: "\<exists>out. refillCorner exSource aboveControl False = Inr out \<and>
      getPixel (data out) (width aboveControl) 0 1 =
        (Some (Fin 2), Some (Fin 2), Some (Fin 2), Some (Fin 255))"
    by auto
  show ?thesis
    using wfb cb neb tb ab 1 wfa ca nea ta aa 2 by blast
qed

text \<open>
  Claim C4, as stated: for bottom-half quadrants every non-negative raw angle is mapped
  to the angle minus a full turn.  It fails at the raw angle 0, which a bottom-half
  quadrant keeps: the pixel just right of the center has the raw angle
  \<open>atan2 0 1 = 0\<close> and the adjusted angle 0.
\<close>

theorem adjustedAngle_zero_bottom:
  "0 \<le> atan2 (real_of_int (int 0 - int 0)) (real_of_int (int 1 - int 0)) \<and>
   pixelAngle True 0 0 1 0 =
     adjustedAngle True (atan2 (real_of_int (int 0 - int 0)) (real_of_int (int 1 - int 0))) \<and>
   adjustedAngle True (atan2 (real_of_int (int 0 - int 0)) (real_of_int (int 1 - int 0))) \<noteq>
     atan2 (real_of_int (int 0 - int 0)) (real_of_int (int 1 - int 0)) - 2 * pi"
  by (simp add: pixelAngle_def adjustedAngle_def atan2_def)

text \<open>
  Claim C4, amended.  In \<^verbatim>\<open>refillCorner\<close> the angle of every sample and of every target
  is \<open>adjustedAngle bottomHalf (atan2 (centerY - y) (x - centerX))\<close>.  For bottom-half
  quadrants every positive raw angle is mapped to the angle minus \<open>2 * pi\<close> and every
  other raw angle, 0 included, is kept; for top-half quadrants every negative raw angle
  is mapped to the angle plus \<open>2 * pi\<close> and every other raw angle is kept.
\<close>

theorem adjustedAngle_mapping:
  "(\<forall>s\<in>set (collectSamples sourcePixels controlPixels bottomHalf centerX centerY).
      \<exists>x<width controlPixels. \<exists>y<height controlPixels.
        hasColor (data controlPixels) (width controlPixels) x y EDGE_COLOR \<and>
        angle s = adjustedAngle bottomHalf
          (atan2 (real_of_int (int centerY - int y)) (real_of_int (int x - int centerX)))) \<and>
   (hasColor (data controlPixels) (width controlPixels) x y TARGET_COLOR \<longrightarrow>
      refillBody controlPixels samples bottomHalf centerX centerY x y res =
        (case targetColor samples (adjustedAngle bottomHalf
            (atan2 (real_of_int (int centerY - int y)) (real_of_int (int x - int centerX)))) of
           Inl e \<Rightarrow> Inl e
         | Inr (r, g, b, a) \<Rightarrow> Inr (setPixel res x y r g b a))) \<and>
   (0 < rawAngle \<longrightarrow> adjustedAngle True rawAngle = rawAngle - 2 * pi) \<and>
   (rawAngle \<le> 0 \<longrightarrow> adjustedAngle True rawAngle = rawAngle) \<and>
   (rawAngle < 0 \<longrightarrow> adjustedAngle False rawAngle = rawAngle + 2 * pi) \<and>
   (0 \<le> rawAngle \<longrightarrow> adjustedAngle False rawAngle = rawAngle)"
proof -
  have "\<exists>x<width controlPixels. \<exists>y<height controlPixels.
        hasColor (data controlPixels) (width controlPixels) x y EDGE_COLOR \<and>
        angle s = adjustedAngle bottomHalf
          (atan2 (real_of_int (int centerY - int y)) (real_of_int (int x - int centerX)))"
    if "s \<in> set (collectSamples sourcePixels controlPixels bottomHalf centerX centerY)" for s
    using collectSamples_sample [OF that] unfolding pixelAngle_def by blast
  moreover have "refillBody controlPixels samples bottomHalf centerX centerY x y res =
        (case targetColor samples (adjustedAngle bottomHalf
            (atan2 (real_of_int (int centerY - int y)) (real_of_int (int x - int centerX)))) of
           Inl e \<Rightarrow> Inl e
         | Inr (r, g, b, a) \<Rightarrow> Inr (setPixel res x y r g b a))"
    if "hasColor (data controlPixels) (width controlPixels) x y TARGET_COLOR"
    using that by (simp add: refillBody_def Let_def targetColor_def pixelAngle_def)
  ultimately show ?thesis
    by (simp add: adjustedAngle_def TWO_PI_def)
qed

theorem adjustedAngle_mapping_witness:
  "collectSamples exSource belowControl False 0 0 \<noteq> [] \<and>
   (\<exists>x<width belowControl. \<exists>y<height belowControl.
      hasColor (data belowControl) (width belowControl) x y EDGE_COLOR \<and>
      angle (hd (collectSamples exSource belowControl False 0 0)) =
        adjustedAngle False (atan2 (real_of_int (int 0 - int y)) (real_of_int (int x - int 0)))) \<and>
   hasColor (data belowControl) (width belowControl) 1 0 TARGET_COLOR \<and>
   refillBody belowControl [] False 0 0 1 0 exSource =
     (case targetColor [] (adjustedAngle False
         (atan2 (real_of_int (int 0 - int 0)) (real_of_int (int 1 - int 0)))) of
        Inl e \<Rightarrow> Inl e
      | Inr (r, g, b, a) \<Rightarrow> Inr (setPixel exSource 1 0 r g b a)) \<and>
   (0::real) < 1 \<and> adjustedAngle True 1 = 1 - 2 * pi \<and> adjustedAngle False 1 = 1 \<and>
   (-1::real) < 0 \<and> adjustedAngle True (-1) = -1 \<and> adjustedAngle False (-1) = -1 + 2 * pi"
proof -
  have ne: "collectSamples exSource belowControl False 0 0 \<noteq> []"
    by (simp add: collectSamples_def hasColor_def getPixel_def readByte_def
        PIXEL_SIZE_def EDGE_COLOR_def upt_conv_Cons belowControl_def exSource_def)
  then have hd: "hd (collectSamples exSource belowControl False 0 0) \<in>
      set (collectSamples exSource belowControl False 0 0)"
    by simp
  have tb: "hasColor (data belowControl) (width belowControl) 1 0 TARGET_COLOR"
    by (simp add: hasColor_def getPixel_def readByte_def PIXEL_SIZE_def TARGET_COLOR_def
        belowControl_def)
  show ?thesis
    using ne hd tb
      adjustedAngle_mapping [of exSource belowControl False 0 0 1 0 "[]" exSource 1]
      adjustedAngle_mapping [of exSource belowControl False 0 0 1 0 "[]" exSource "-1"]
    by auto
qed

text \<open>
  Claim C8.  The claim is that the two bracketing samples, when they are not the same
  entry, have different angles.  Two edge pixels on one ray from the center have the
  same angle, and for a target on that ray the sample found from the end of the sorted
  list and the one found from its start are different entries with that same angle.
  On \<open>quadSource\<close> and \<open>sameRayControl\<close> the identity test of \<^verbatim>\<open>lerpSamples\<close> fails,
  the distance is 0, both weights are \<open>0 / 0\<close>, and the target pixel \<open>(3, 0)\<close> is stored
  as four zero bytes.
\<close>

theorem refillCorner_same_ray:
  "findCenter sameRayControl = Some (0, 0) \<and>
   map (\<lambda>s. (angle s, ref s)) (sortedSamples quadSource sameRayControl False 0 0) =
     [(0, 0), (0, 1)] \<and>
   pixelAngle False 0 0 3 0 = 0 \<and>
   map_option ref (sampleBefore (sortedSamples quadSource sameRayControl False 0 0) 0) = Some 1 \<and>
   map_option ref (sampleAfter (sortedSamples quadSource sameRayControl False 0 0) 0) = Some 0 \<and>
   targetColor (sortedSamples quadSource sameRayControl False 0 0) 0 =
     Inr (Some NaN, Some NaN, Some NaN, Some NaN) \<and>
   refillCorner quadSource sameRayControl False =
     Inr \<lparr>width = 4, height = 1,
          data = [9, 9, 9, 255,  10, 20, 30, 255,  40, 50, 60, 255,  0, 0, 0, 0]\<rparr>"
proof -
  have c: "findCenter sameRayControl = Some (0, 0)"
    by (simp add: quad_eval sameRayControl_def)
  have s: "sortedSamples quadSource sameRayControl False 0 0 =
      [\<lparr>angle = 0, color = (Some (Fin 10), Some (Fin 20), Some (Fin 30), Some (Fin 255)), ref = 0\<rparr>,
       \<lparr>angle = 0, color = (Some (Fin 40), Some (Fin 50), Some (Fin 60), Some (Fin 255)), ref = 1\<rparr>]"
    by (simp add: quad_eval sameRayControl_def quadSource_def)
  have a: "pixelAngle False 0 0 3 0 = 0"
    by (simp add: pixelAngle_def adjustedAngle_def atan2_def)
  have b: "map_option ref (sampleBefore (sortedSamples quadSource sameRayControl False 0 0) 0) = Some 1"
    "map_option ref (sampleAfter (sortedSamples quadSource sameRayControl False 0 0) 0) = Some 0"
    unfolding s by (simp_all add: sampleBefore_def sampleAfter_def nullish_def)
  have t: "targetColor (sortedSamples quadSource sameRayControl False 0 0) 0 =
     Inr (Some NaN, Some NaN, Some NaN, Some NaN)"
    unfolding s by (simp add: targetColor_def sampleBefore_def sampleAfter_def nullish_def)
  have r: "refillCorner quadSource sameRayControl False =
     Inr \<lparr>width = 4, height = 1,
          data = [9, 9, 9, 255,  10, 20, 30, 255,  40, 50, 60, 255,  0, 0, 0, 0]\<rparr>"
    apply (simp only: refillCorner_def Let_def c option.case prod.case s)
    apply (simp add: refillBody_def hasColor_def getPixel_def readByte_def PIXEL_SIZE_def
        TARGET_COLOR_def pixelAngle_def adjustedAngle_def atan2_def sampleBefore_def
        sampleAfter_def nullish_def upt_conv_Cons sameRayControl_def quadSource_def
        setPixel_def writeByte_def)
    done
  show ?thesis using c s a b t r by simp
qed

section \<open>The pixels of the padded canvas\<close>

lemma paintCopy_surface:
  assumes "identityTransform ctx"
  shows "paintCopy img w h padding c ctx =
     ctx\<lparr>surface := (\<lambda>x y. case copyPixel img w h padding c x y of
                                Some v \<Rightarrow> v | None \<Rightarrow> surface ctx x y)\<rparr>"
  using assms
  by (simp add: paintCopy_def restore_def drawImage_def scale_def translate_def save_def
      identityTransform_def copyPixel_def Let_def fun_eq_iff)

lemma fold_paintCopy:
  assumes "identityTransform ctx"
  shows "identityTransform (fold (paintCopy img w h padding) cs ctx) \<and>
     surfaceWidth (fold (paintCopy img w h padding) cs ctx) = surfaceWidth ctx \<and>
     surfaceHeight (fold (paintCopy img w h padding) cs ctx) = surfaceHeight ctx \<and>
     surface (fold (paintCopy img w h padding) cs ctx) x y =
       foldl (\<lambda>v c. case copyPixel img w h padding c x y of Some u \<Rightarrow> u | None \<Rightarrow> v)
         (surface ctx x y) cs"
  using assms
proof (induction cs arbitrary: ctx)
  case Nil
  then show ?case by simp
next
  case (Cons c cs)
  let ?ctx' = "paintCopy img w h padding c ctx"
  have s: "?ctx' = ctx\<lparr>surface := (\<lambda>x y. case copyPixel img w h padding c x y of
                                Some v \<Rightarrow> v | None \<Rightarrow> surface ctx x y)\<rparr>"
    by (rule paintCopy_surface [OF Cons.prems])
  have "identityTransform ?ctx'" using Cons.prems by (simp add: s identityTransform_def)
  from Cons.IH [OF this] show ?case by (simp add: s)
qed

lemma length_concat_quads:
  "(\<And>k. k < n \<Longrightarrow> length (f k) = 4) \<Longrightarrow> length (concat (map f [0..<n])) = 4 * n"
  by (induction n) simp_all

lemma nth_concat_quads:
  assumes "\<And>k. k < n \<Longrightarrow> length (f k) = 4" "q < n" "c < 4"
  shows "concat (map f [0..<n]) ! (4 * q + c) = f q ! c"
  using assms
proof (induction n)
  case 0
  then show ?case by simp
next
  case (Suc n)
  have len: "length (concat (map f [0..<n])) = 4 * n"
    using Suc.prems(1) by (intro length_concat_quads) simp
  show ?case
  proof (cases "q < n")
    case True
    then have "4 * q + c < 4 * n" using Suc.prems(3) by simp
    then show ?thesis using Suc.IH [OF _ True Suc.prems(3)] Suc.prems(1) len
      by (simp add: nth_append)
  next
    case False
    then have q: "q = n" using Suc.prems(2) by simp
    then show ?thesis using len by (simp add: nth_append)
  qed
qed

lemma getPixel_getImageData:
  assumes "x < w" "y < h" "w \<le> surfaceWidth ctx" "h \<le> surfaceHeight ctx"
  shows "getPixel (data (getImageData ctx 0 0 w h)) w x y = toPixelData (surface ctx x y)"
proof -
  define f where "f = (\<lambda>k. case (if 0 + k mod w < surfaceWidth ctx \<and> 0 + k div w < surfaceHeight ctx
               then surface ctx (0 + k mod w) (0 + k div w) else (0, 0, 0, 0)) of
           (r, g, b, a) \<Rightarrow> [r, g, b, a])"
  define q where "q = x + y * w"
  have d: "data (getImageData ctx 0 0 w h) = concat (map f [0..<w * h])"
    by (simp add: getImageData_def f_def)
  have len4: "length (f k) = 4" for k by (simp add: f_def split: prod.splits)
  have qlt: "q < w * h" unfolding q_def by (rule index_in_range [OF assms(1,2)])
  have qm: "q mod w = x" "q div w = y" using assms(1) by (simp_all add: q_def)
  obtain r g b a where v: "surface ctx x y = (r, g, b, a)" by (cases "surface ctx x y")
  have fq: "f q = [r, g, b, a]"
    using assms by (simp add: f_def qm v)
  have len: "length (concat (map f [0..<w * h])) = 4 * (w * h)"
    by (rule length_concat_quads) (rule len4)
  have rd: "readByte (concat (map f [0..<w * h])) (4 * q + c) =
      Some (Fin (real (unat ([r, g, b, a] ! c))))" if c: "c < 4" for c
  proof -
    have "concat (map f [0..<w * h]) ! (4 * q + c) = f q ! c"
      by (rule nth_concat_quads [OF len4 qlt c])
    moreover have "4 * q + c < 4 * (w * h)" using qlt c by simp
    ultimately show ?thesis by (simp add: readByte_def len fq)
  qed
  show ?thesis
    unfolding d
  proof (rule getPixel_tupleI [OF q_def])
    fix c :: nat assume c: "c < 4"
    then consider "c = 0" | "c = 1" | "c = 2" | "c = 3" by linarith
    then show "readByte (concat (map f [0..<w * h])) (4 * q + c) =
        channel (toPixelData (surface ctx x y)) c"
      using rd [OF c] by cases (simp_all add: v toPixelData_def channel_def)
  qed
qed

lemma getPixel_rgbaAt:
  assumes "length (data img) = 4 * width img * height img" "x < width img" "y < height img"
  shows "getPixel (data img) (width img) x y = toPixelData (rgbaAt img x y)"
proof -
  have "4 * (x + y * width img) + 3 < length (data img)"
    using index_in_range [OF assms(2,3)] assms(1) by (simp add: mult.assoc)
  then show ?thesis
    by (simp add: getPixel_def rgbaAt_def Let_def PIXEL_SIZE_def readByte_def byteAt_def
        toPixelData_def)
qed

lemma addBleed_surface:
  "addBleed source padding =
     getImageData
       (fold (paintCopy (putImageData (createCanvas (width source) (height source)) source 0 0)
                (width source) (height source) padding) COPIES
          (drawImage (createCanvas (width source + 2 * padding) (height source + 2 * padding))
             (putImageData (createCanvas (width source) (height source)) source 0 0)
             (int padding) (int padding)))
       0 0 (width source + 2 * padding) (height source + 2 * padding)"
  by (simp add: addBleed_def Let_def)


lemma sourceCanvas_simps [simp]:
  "surfaceWidth (sourceCanvas source) = width source"
  "surfaceHeight (sourceCanvas source) = height source"
  "i < width source \<Longrightarrow> j < height source \<Longrightarrow>
     surface (sourceCanvas source) i j = rgbaAt source i j"
  by (simp_all add: sourceCanvas_def putImageData_def createCanvas_def)

lemma addBleed_pixel:
  assumes "x < width source + 2 * padding" "y < height source + 2 * padding"
  shows "getPixel (data (addBleed source padding)) (width source + 2 * padding) x y =
     toPixelData (bleedPixel source padding x y)"
proof -
  let ?W = "width source + 2 * padding" and ?H = "height source + 2 * padding"
  let ?ctx1 = "drawImage (createCanvas ?W ?H) (sourceCanvas source) (int padding) (int padding)"
  have id1: "identityTransform ?ctx1"
    by (simp add: identityTransform_def drawImage_def createCanvas_def)
  have dims1: "surfaceWidth ?ctx1 = ?W" "surfaceHeight ?ctx1 = ?H"
    by (simp_all add: drawImage_def createCanvas_def)
  have s1: "surface ?ctx1 x y =
      (if padding \<le> x \<and> x < padding + width source \<and> padding \<le> y \<and> y < padding + height source
        then rgbaAt source (x - padding) (y - padding) else (0, 0, 0, 0))"
  proof (cases "padding \<le> x \<and> x < padding + width source \<and> padding \<le> y \<and> y < padding + height source")
    case True
    then have "nat (int x - int padding) = x - padding" "nat (int y - int padding) = y - padding"
      "x - padding < width source" "y - padding < height source"
      by auto
    with True show ?thesis
      by (simp add: drawImage_def createCanvas_def sourceCell_def Let_def)
  next
    case False
    then show ?thesis
      by (auto simp: drawImage_def createCanvas_def sourceCell_def Let_def)
  qed
  note f = fold_paintCopy [OF id1, of "sourceCanvas source" "width source" "height source"
      padding COPIES x y]
  have "getPixel (data (addBleed source padding)) ?W x y =
      toPixelData (surface (fold (paintCopy (sourceCanvas source) (width source) (height source)
          padding) COPIES ?ctx1) x y)"
    unfolding addBleed_surface sourceCanvas_def [symmetric]
    using assms f dims1 by (intro getPixel_getImageData) simp_all
  then show ?thesis using f s1 by (simp add: bleedPixel_def)
qed

lemma addBleed_dims:
  "width (addBleed source padding) = width source + 2 * padding"
  "height (addBleed source padding) = height source + 2 * padding"
  by (simp_all add: addBleed_def Let_def getImageData_def)

lemmas bleed_eval = bleedPixel_def COPIES_def copyPixel_def sourceCell_def Let_def

lemma bleedPixel_center:
  assumes "i < width source" "j < height source"
  shows "bleedPixel source p (p + i) (p + j) = rgbaAt source i j"
  using assms by (simp add: bleed_eval)


lemma bleedPixel_left:
  assumes "k < p" "k < width source" "j < height source"
  shows "bleedPixel source p (p - 1 - k) (p + j) = rgbaAt source k j"
proof -
  have "int (p - 1 - k) = int p - 1 - int k" using assms(1) by simp
  then show ?thesis using assms by (simp add: bleed_eval)
qed

lemma bleedPixel_right:
  assumes "k < p" "k < width source" "j < height source"
  shows "bleedPixel source p (p + width source + k) (p + j) = rgbaAt source (width source - 1 - k) j"
proof -
  have "nat (int (width source) + (- int k - 1)) = width source - Suc k" using assms(2) by simp
  then show ?thesis using assms by (simp add: bleed_eval)
qed

lemma bleedPixel_top:
  assumes "l < p" "l < height source" "i < width source"
  shows "bleedPixel source p (p + i) (p - 1 - l) = rgbaAt source i l"
proof -
  have "int (p - 1 - l) = int p - 1 - int l" using assms(1) by simp
  then show ?thesis using assms by (simp add: bleed_eval)
qed

lemma bleedPixel_bottom:
  assumes "l < p" "l < height source" "i < width source"
  shows "bleedPixel source p (p + i) (p + height source + l) = rgbaAt source i (height source - 1 - l)"
proof -
  have "nat (int (height source) + (- int l - 1)) = height source - Suc l" using assms(2) by simp
  then show ?thesis using assms by (simp add: bleed_eval)
qed

lemma bleedPixel_top_left:
  assumes "k < p" "k < width source" "l < p" "l < height source"
  shows "bleedPixel source p (p - 1 - k) (p - 1 - l) = rgbaAt source k l"
proof -
  have "int (p - 1 - k) = int p - 1 - int k" "int (p - 1 - l) = int p - 1 - int l"
    using assms(1,3) by simp_all
  then show ?thesis using assms by (simp add: bleed_eval)
qed

lemma bleedPixel_top_right:
  assumes "k < p" "k < width source" "l < p" "l < height source"
  shows "bleedPixel source p (p + width source + k) (p - 1 - l) =
     rgbaAt source (width source - 1 - k) l"
proof -
  have "nat (int (width source) + (- int k - 1)) = width source - Suc k"
    "int (p - 1 - l) = int p - 1 - int l"
    using assms(2,3) by simp_all
  then show ?thesis using assms by (simp add: bleed_eval)
qed

lemma bleedPixel_bottom_left:
  assumes "k < p" "k < width source" "l < p" "l < height source"
  shows "bleedPixel source p (p - 1 - k) (p + height source + l) =
     rgbaAt source k (height source - 1 - l)"
proof -
  have "int (p - 1 - k) = int p - 1 - int k"
    "nat (int (height source) + (- int l - 1)) = height source - Suc l"
    using assms(1,4) by simp_all
  then show ?thesis using assms by (simp add: bleed_eval)
qed

lemma bleedPixel_bottom_right:
  assumes "k < p" "k < width source" "l < p" "l < height source"
  shows "bleedPixel source p (p + width source + k) (p + height source + l) =
     rgbaAt source (width source - 1 - k) (height source - 1 - l)"
proof -
  have "nat (int (width source) + (- int k - 1)) = width source - Suc k"
    "nat (int (height source) + (- int l - 1)) = height source - Suc l"
    using assms(2,4) by simp_all
  then show ?thesis using assms by (simp add: bleed_eval)
qed

lemma length_addBleed:
  "length (data (addBleed source padding)) =
     4 * (width source + 2 * padding) * (height source + 2 * padding)"
proof -
  have "length (concat (map f [0..<n])) = 4 * n"
    if "\<And>k. k < n \<Longrightarrow> length (f k) = 4" for f :: "nat \<Rightarrow> byte list" and n
    using that by (rule length_concat_quads)
  then show ?thesis
    unfolding addBleed_surface getImageData_def
    by (simp add: mult.assoc split: prod.splits)
qed

text \<open>
  Claim C5.  For a well-formed source and any padding, the buffer that \<^verbatim>\<open>addBleed\<close>
  returns has the width and the height of the source plus twice the padding, and its
  pixel at \<open>(padding + i, padding + j)\<close> is the source pixel at \<open>(i, j)\<close>, for every
  \<open>(i, j)\<close> inside the source.
\<close>

theorem addBleed_original:
  assumes wf: "length (data source) = 4 * width source * height source"
    and ij: "i < width source" "j < height source"
  shows "width (addBleed source padding) = width source + 2 * padding \<and>
     height (addBleed source padding) = height source + 2 * padding \<and>
     length (data (addBleed source padding)) =
       4 * width (addBleed source padding) * height (addBleed source padding) \<and>
     getPixel (data (addBleed source padding)) (width (addBleed source padding))
       (padding + i) (padding + j) =
     getPixel (data source) (width source) i j"
proof -
  have "getPixel (data (addBleed source padding)) (width source + 2 * padding)
       (padding + i) (padding + j) = toPixelData (rgbaAt source i j)"
    using ij by (simp add: addBleed_pixel bleedPixel_center)
  then show ?thesis
    using getPixel_rgbaAt [OF wf ij] by (simp add: addBleed_dims length_addBleed)
qed

theorem addBleed_original_witness:
  "length (data exSource) = 4 * width exSource * height exSource \<and>
   1 < width exSource \<and> 0 < height exSource \<and>
   width (addBleed exSource 1) = width exSource + 2 * 1 \<and>
   height (addBleed exSource 1) = height exSource + 2 * 1 \<and>
   getPixel (data (addBleed exSource 1)) (width (addBleed exSource 1)) (1 + 1) (1 + 0) =
     getPixel (data exSource) (width exSource) 1 0 \<and>
   getPixel (data exSource) (width exSource) 1 0 =
     (Some (Fin 2), Some (Fin 2), Some (Fin 2), Some (Fin 255))"
proof -
  have wf: "length (data exSource) = 4 * width exSource * height exSource"
    by (simp add: exSource_def)
  have b: "1 < width exSource" "0 < height exSource" by (simp_all add: exSource_def)
  have s: "getPixel (data exSource) (width exSource) 1 0 =
      (Some (Fin 2), Some (Fin 2), Some (Fin 2), Some (Fin 255))"
    by (simp add: exSource_def getPixel_def readByte_def PIXEL_SIZE_def)
  show ?thesis
    using wf b s addBleed_original [OF wf b, of 1] by blast
qed

text \<open>
  Claim C6, as stated: for every padding \<open>p\<close> and every \<open>k < p\<close> the output pixel at
  \<open>(p - 1 - k, p + j)\<close> is the source pixel at \<open>(k, j)\<close>.  Each mirrored copy is one
  copy of the source, as wide as the source; with a padding larger than the width the
  columns further out than the width are not painted.  For the one-pixel source and the
  padding 2 the output pixel at \<open>(0, 2)\<close>, which is \<open>k = 1\<close>, is transparent, and the source
  has no pixel at \<open>(1, 0)\<close>.
\<close>

theorem addBleed_wide_padding:
  "(1::nat) < 2 \<and> 0 < height onePixel \<and>
   getPixel (data (addBleed onePixel 2)) (width (addBleed onePixel 2)) (2 - 1 - 1) (2 + 0) =
     (Some (Fin 0), Some (Fin 0), Some (Fin 0), Some (Fin 0)) \<and>
   getPixel (data onePixel) (width onePixel) 1 0 = (None, None, None, None) \<and>
   getPixel (data (addBleed onePixel 2)) (width (addBleed onePixel 2)) (2 - 1 - 1) (2 + 0) \<noteq>
     getPixel (data onePixel) (width onePixel) 1 0"
proof -
  have w: "width (addBleed onePixel 2) = 5"
    by (simp add: addBleed_dims onePixel_def)
  have g: "getPixel (data (addBleed onePixel 2)) 5 0 2 = toPixelData (bleedPixel onePixel 2 0 2)"
    using addBleed_pixel [of 0 onePixel 2 2] by (simp add: onePixel_def)
  have bp: "bleedPixel onePixel 2 0 2 = (0, 0, 0, 0)"
    by (simp add: bleed_eval sourceCanvas_def putImageData_def createCanvas_def onePixel_def)
  have o: "getPixel (data (addBleed onePixel 2)) (width (addBleed onePixel 2))
      (2 - 1 - 1) (2 + 0) = (Some (Fin 0), Some (Fin 0), Some (Fin 0), Some (Fin 0))"
    by (simp add: w g bp toPixelData_def)
  have s: "getPixel (data onePixel) (width onePixel) 1 0 = (None, None, None, None)"
    by (simp add: getPixel_def readByte_def PIXEL_SIZE_def onePixel_def)
  have h: "0 < height onePixel" by (simp add: onePixel_def)
  show ?thesis unfolding o s using h by simp
qed

text \<open>
  Claim C6, amended.  For a well-formed source, a padding \<open>p\<close>, offsets \<open>k\<close> below both
  \<open>p\<close> and the width and \<open>l\<close> below both \<open>p\<close> and the height, and \<open>(i, j)\<close> inside the
  source, the output of \<^verbatim>\<open>addBleed\<close> mirrors the source on every side: the pixel
  \<open>k\<close> columns left of the original is the source pixel \<open>k\<close> columns from its left edge,
  the pixel \<open>k\<close> columns right of it the one \<open>k\<close> columns from its right edge, likewise
  above and below with \<open>l\<close> rows, and in the four corners with both.
\<close>

theorem addBleed_mirrors:
  assumes wf: "length (data source) = 4 * width source * height source"
    and k: "k < padding" "k < width source"
    and l: "l < padding" "l < height source"
    and ij: "i < width source" "j < height source"
  shows
    "getPixel (data (addBleed source padding)) (width (addBleed source padding))
       (padding - 1 - k) (padding + j) =
     getPixel (data source) (width source) k j \<and>
     getPixel (data (addBleed source padding)) (width (addBleed source padding))
       (padding + width source + k) (padding + j) =
     getPixel (data source) (width source) (width source - 1 - k) j \<and>
     getPixel (data (addBleed source padding)) (width (addBleed source padding))
       (padding + i) (padding - 1 - l) =
     getPixel (data source) (width source) i l \<and>
     getPixel (data (addBleed source padding)) (width (addBleed source padding))
       (padding + i) (padding + height source + l) =
     getPixel (data source) (width source) i (height source - 1 - l) \<and>
     getPixel (data (addBleed source padding)) (width (addBleed source padding))
       (padding - 1 - k) (padding - 1 - l) =
     getPixel (data source) (width source) k l \<and>
     getPixel (data (addBleed source padding)) (width (addBleed source padding))
       (padding + width source + k) (padding - 1 - l) =
     getPixel (data source) (width source) (width source - 1 - k) l \<and>
     getPixel (data (addBleed source padding)) (width (addBleed source padding))
       (padding - 1 - k) (padding + height source + l) =
     getPixel (data source) (width source) k (height source - 1 - l) \<and>
     getPixel (data (addBleed source padding)) (width (addBleed source padding))
       (padding + width source + k) (padding + height source + l) =
     getPixel (data source) (width source) (width source - 1 - k) (height source - 1 - l)"
proof -
  let ?W = "width source + 2 * padding"
  have px: "getPixel (data (addBleed source padding)) (width (addBleed source padding)) x y =
      getPixel (data source) (width source) x' y'"
    if "x < ?W" "y < height source + 2 * padding" "x' < width source" "y' < height source"
      "bleedPixel source padding x y = rgbaAt source x' y'" for x y x' y'
    using addBleed_pixel [OF that(1,2)] getPixel_rgbaAt [OF wf that(3,4)] that(5)
    by (simp add: addBleed_dims)
  have wk: "width source - 1 - k < width source" using k by simp
  have hl: "height source - 1 - l < height source" using l by simp
  have left: "getPixel (data (addBleed source padding)) (width (addBleed source padding))
       (padding - 1 - k) (padding + j) = getPixel (data source) (width source) k j"
    using k ij by (intro px bleedPixel_left) simp_all
  have right: "getPixel (data (addBleed source padding)) (width (addBleed source padding))
       (padding + width source + k) (padding + j) =
     getPixel (data source) (width source) (width source - 1 - k) j"
    using k ij wk by (intro px bleedPixel_right) simp_all
  have top: "getPixel (data (addBleed source padding)) (width (addBleed source padding))
       (padding + i) (padding - 1 - l) = getPixel (data source) (width source) i l"
    using l ij by (intro px bleedPixel_top) simp_all
  have bottom: "getPixel (data (addBleed source padding)) (width (addBleed source padding))
       (padding + i) (padding + height source + l) =
     getPixel (data source) (width source) i (height source - 1 - l)"
    using l ij hl by (intro px bleedPixel_bottom) simp_all
  have tl: "getPixel (data (addBleed source padding)) (width (addBleed source padding))
       (padding - 1 - k) (padding - 1 - l) = getPixel (data source) (width source) k l"
    using k l by (intro px bleedPixel_top_left) simp_all
  have tr: "getPixel (data (addBleed source padding)) (width (addBleed source padding))
       (padding + width source + k) (padding - 1 - l) =
     getPixel (data source) (width source) (width source - 1 - k) l"
    using k l wk by (intro px bleedPixel_top_right) simp_all
  have bl: "getPixel (data (addBleed source padding)) (width (addBleed source padding))
       (padding - 1 - k) (padding + height source + l) =
     getPixel (data source) (width source) k (height source - 1 - l)"
    using k l hl by (intro px bleedPixel_bottom_left) simp_all
  have br: "getPixel (data (addBleed source padding)) (width (addBleed source padding))
       (padding + width source + k) (padding + height source + l) =
     getPixel (data source) (width source) (width source - 1 - k) (height source - 1 - l)"
    using k l wk hl by (intro px bleedPixel_bottom_right) simp_all
  show ?thesis using left right top bottom tl tr bl br by blast
qed

theorem addBleed_mirrors_witness:
  "length (data exSource) = 4 * width exSource * height exSource \<and>
   (0::nat) < 1 \<and> 0 < width exSource \<and> 0 < height exSource \<and>
   1 < width exSource \<and> 1 < height exSource \<and>
   getPixel (data (addBleed exSource 1)) (width (addBleed exSource 1)) (1 - 1 - 0) (1 + 1) =
     getPixel (data exSource) (width exSource) 0 1 \<and>
   getPixel (data (addBleed exSource 1)) (width (addBleed exSource 1))
       (1 + width exSource + 0) (1 + height exSource + 0) =
     getPixel (data exSource) (width exSource) (width exSource - 1 - 0) (height exSource - 1 - 0)"
proof -
  have wf: "length (data exSource) = 4 * width exSource * height exSource"
    by (simp add: exSource_def)
  have b: "(0::nat) < 1" "0 < width exSource" "0 < height exSource"
    "1 < width exSource" "1 < height exSource"
    by (simp_all add: exSource_def)
  show ?thesis
    using wf b addBleed_mirrors [OF wf b(1,2) b(1,3) b(4,5)] by blast
qed

end
